theory Spec2Isabelle
  imports Main "HOL-Library.Word"
begin

unbundle bit_operations_syntax

section \<open>Errors\<close>

text \<open>
  Every exception and failed assertion of the source is a value. \<open>Out_Of_Bounds\<close> stands for
  an indexed read of a \<open>std::vector\<close> past its end, which C++ leaves undefined.
\<close>

datatype error =
    Invalid_Argument
  | Invalid_State
  | Encoding_Error
  | Assertion_Failure
  | Out_Of_Bounds

definition ebind :: "error + 'a \<Rightarrow> ('a \<Rightarrow> error + 'b) \<Rightarrow> error + 'b" where
  "ebind r f = (case r of Inl e \<Rightarrow> Inl e | Inr x \<Rightarrow> f x)"

section \<open>The big-integer collaborator\<close>

text \<open>
  Modelled from the spec: the arbitrary-precision integer type (BigInt) is not in the source
  files at hand. The spec asks it for arbitrary-precision arithmetic, a bit-length, a
  substring-extraction primitive used for windowing and modular reduction. A BigInt is an
  \<open>int\<close>; bit-length and substring read its magnitude.
\<close>

fun bits_nat :: "nat \<Rightarrow> nat" where
  "bits_nat n = (if n = 0 then 0 else Suc (bits_nat (n div 2)))"

declare bits_nat.simps [simp del]

definition bits :: "int \<Rightarrow> nat" where
  "bits x = bits_nat (nat \<bar>x\<bar>)"

definition sig_words :: "int \<Rightarrow> nat" where
  "sig_words x = (bits x + 63) div 64"

definition get_substring :: "int \<Rightarrow> nat \<Rightarrow> nat \<Rightarrow> nat" where
  "get_substring x offset len = (nat \<bar>x\<bar> div 2 ^ offset) mod 2 ^ len"

definition is_negative :: "int \<Rightarrow> bool" where
  "is_negative x = (x < 0)"

text \<open>Modelled from the spec: \<open>Modular_Reducer::reduce\<close>, reduction of a non-negative value
  modulo the reducer's modulus.\<close>

definition reduce :: "int \<Rightarrow> int \<Rightarrow> int" where
  "reduce modulus x = x mod modulus"

text \<open>Modelled from the spec: \<open>round_up(n, align_to)\<close> of rounding.h, the least multiple of
  \<open>align_to\<close> that is at least \<open>n\<close>.\<close>

definition round_up :: "nat \<Rightarrow> nat \<Rightarrow> nat" where
  "round_up n align_to =
     (if align_to = 0 then n
      else if n mod align_to \<noteq> 0 then n + (align_to - n mod align_to) else n)"

subsection \<open>Machine words\<close>

type_synonym word = "64 word"

text \<open>The low \<open>n\<close> words of a magnitude, least significant first, zero padded.\<close>

primrec bigint_words :: "nat \<Rightarrow> nat \<Rightarrow> word list" where
  "bigint_words m 0 = []"
| "bigint_words m (Suc n) = of_nat m # bigint_words (m div 2 ^ 64) n"

text \<open>Modelled from the spec: \<open>BigInt::encode_words\<close>, which refuses a value with more
  significant words than the output has room for.\<close>

definition encode_words :: "int \<Rightarrow> nat \<Rightarrow> error + word list" where
  "encode_words x n =
     (if sig_words x > n then Inl Encoding_Error else Inr (bigint_words (nat \<bar>x\<bar>) n))"

text \<open>The value of a word array, least significant word first.\<close>

primrec word_value :: "word list \<Rightarrow> int" where
  "word_value [] = 0"
| "word_value (w # ws) = uint w + 2 ^ 64 * word_value ws"

subsection \<open>Constant-time selection\<close>

text \<open>Modelled from the spec: \<open>CT::Mask\<close> of ct_utils.h. \<open>is_equal\<close> is the all-ones word when
  its arguments agree and zero otherwise; \<open>if_set_return\<close> masks a word with it.\<close>

definition Mask_is_equal :: "nat \<Rightarrow> nat \<Rightarrow> word" where
  "Mask_is_equal x y = (if x = y then - 1 else 0)"

definition if_set_return :: "word \<Rightarrow> word \<Rightarrow> word" where
  "if_set_return m x = m AND x"

section \<open>Curve descriptor and projective point\<close>

text \<open>
  \<open>m_repr\<close> is the identity of the shared representation object a descriptor refers to;
  \<open>get_p\<close>, \<open>get_a\<close>, \<open>get_b\<close> are the parameters of \<open>y\<^sup>2 = x\<^sup>3 + a x + b (mod p)\<close>.
\<close>

record CurveGFp =
  m_repr :: nat
  get_p :: int
  get_a :: int
  get_b :: int

text \<open>Modelled from the spec: equality of two descriptors is by value of p, a, b, not by
  identity (curve_gfp.h is not at hand).\<close>

definition curve_eq :: "CurveGFp \<Rightarrow> CurveGFp \<Rightarrow> bool" where
  "curve_eq c d = (get_p c = get_p d \<and> get_a c = get_a d \<and> get_b c = get_b d)"

definition get_p_words :: "CurveGFp \<Rightarrow> nat" where
  "get_p_words c = sig_words (get_p c)"

record PointGFp =
  m_curve :: CurveGFp
  m_coord_x :: int
  m_coord_y :: int
  m_coord_z :: int

text \<open>Modelled from the spec: \<open>PointGFp(curve)\<close> constructs the identity, the point with
  \<open>Z = 0\<close>.\<close>

definition zero_of_curve :: "CurveGFp \<Rightarrow> PointGFp" where
  "zero_of_curve c = \<lparr>m_curve = c, m_coord_x = 0, m_coord_y = 1, m_coord_z = 0\<rparr>"

definition zero_point :: "PointGFp \<Rightarrow> PointGFp" where
  "zero_point P = zero_of_curve (m_curve P)"

definition is_zero :: "PointGFp \<Rightarrow> bool" where
  "is_zero P = (m_coord_z P = 0)"

definition negate :: "PointGFp \<Rightarrow> PointGFp" where
  "negate P =
     (if \<not> is_zero P then P\<lparr>m_coord_y := get_p (m_curve P) - m_coord_y P\<rparr> else P)"

subsection \<open>The represented affine point\<close>

text \<open>
  Modelled from the spec: a point \<open>(X, Y, Z)\<close> represents the affine point
  \<open>(X / Z\<^sup>2, Y / Z\<^sup>3)\<close> when \<open>Z \<noteq> 0\<close> and the group identity when \<open>Z = 0\<close>. The identity
  is \<open>None\<close>. Division is multiplication by the inverse modulo \<open>p\<close>, computed by the extended
  Euclidean algorithm.
\<close>

type_synonym affine = "(int \<times> int) option"

definition inv_mod :: "int \<Rightarrow> int \<Rightarrow> int" where
  "inv_mod p z = fst (bezw (nat (z mod p)) (nat p)) mod p"

definition affine_of :: "PointGFp \<Rightarrow> affine" where
  "affine_of P =
     (if is_zero P then None
      else let p = get_p (m_curve P);
               zi = inv_mod p (m_coord_z P);
               z2 = (zi * zi) mod p;
               z3 = (z2 * zi) mod p
           in Some ((m_coord_x P * z2) mod p, (m_coord_y P * z3) mod p))"

definition from_affine :: "CurveGFp \<Rightarrow> affine \<Rightarrow> PointGFp" where
  "from_affine c A =
     (case A of
        None \<Rightarrow> zero_of_curve c
      | Some (x, y) \<Rightarrow> \<lparr>m_curve = c, m_coord_x = x, m_coord_y = y, m_coord_z = 1\<rparr>)"

text \<open>Modelled from the spec: equality compares the represented affine points, not raw
  coordinate tuples (the operator lives in point_gfp.cpp).\<close>

definition point_eq :: "PointGFp \<Rightarrow> PointGFp \<Rightarrow> bool" where
  "point_eq P Q = (curve_eq (m_curve P) (m_curve Q) \<and> affine_of P = affine_of Q)"

text \<open>Modelled from the spec: \<open>on_curve\<close> recomputes whether the projective coordinates
  satisfy \<open>Y\<^sup>2 = X\<^sup>3 + a X Z\<^sup>4 + b Z\<^sup>6 (mod p)\<close>; the identity counts as on the curve.\<close>

definition on_the_curve :: "PointGFp \<Rightarrow> bool" where
  "on_the_curve P =
     (is_zero P \<or>
      (let p = get_p (m_curve P); a = get_a (m_curve P); b = get_b (m_curve P);
           X = m_coord_x P; Y = m_coord_y P; Z = m_coord_z P
       in (Y ^ 2) mod p = (X ^ 3 + a * X * Z ^ 4 + b * Z ^ 6) mod p))"

subsection \<open>The group law on affine points\<close>

text \<open>
  Modelled from the spec: point addition on the short Weierstrass curve
  \<open>y\<^sup>2 = x\<^sup>3 + a x + b\<close> over GF(p), by chord and tangent; the identity is neutral and a
  point plus its mirror image is the identity.
\<close>

definition affine_on_curve :: "CurveGFp \<Rightarrow> affine \<Rightarrow> bool" where
  "affine_on_curve c A =
     (case A of
        None \<Rightarrow> True
      | Some (x, y) \<Rightarrow>
          0 \<le> x \<and> x < get_p c \<and> 0 \<le> y \<and> y < get_p c \<and>
          (y * y) mod get_p c = (x * x * x + get_a c * x + get_b c) mod get_p c)"

definition affine_add :: "CurveGFp \<Rightarrow> affine \<Rightarrow> affine \<Rightarrow> affine" where
  "affine_add c A B =
     (case A of
        None \<Rightarrow> B
      | Some (x1, y1) \<Rightarrow>
         (case B of
            None \<Rightarrow> A
          | Some (x2, y2) \<Rightarrow>
             (let p = get_p c in
              if x1 = x2 then
                (if (y1 + y2) mod p = 0 then None
                 else
                   let l = ((3 * x1 * x1 + get_a c) * inv_mod p (2 * y1)) mod p;
                       x3 = (l * l - 2 * x1) mod p
                   in Some (x3, (l * (x1 - x3) - y1) mod p))
              else
                let l = ((y2 - y1) * inv_mod p (x2 - x1)) mod p;
                    x3 = (l * l - x1 - x2) mod p
                in Some (x3, (l * (x1 - x3) - y1) mod p))))"

definition affine_neg :: "CurveGFp \<Rightarrow> affine \<Rightarrow> affine" where
  "affine_neg c A = (case A of None \<Rightarrow> None | Some (x, y) \<Rightarrow> Some (x, (- y) mod get_p c))"

text \<open>\<open>k\<close> applications of \<open>+ A\<close> to the identity.\<close>

primrec affine_mult :: "CurveGFp \<Rightarrow> nat \<Rightarrow> affine \<Rightarrow> affine" where
  "affine_mult c 0 A = None"
| "affine_mult c (Suc k) A = affine_add c (affine_mult c k A) A"

subsection \<open>Point arithmetic\<close>

text \<open>
  Modelled from the spec: the array version of \<open>add\<close> (point_gfp.cpp) is Jacobian point
  addition that handles the identity on either side by returning the other operand. The
  result is a representation of the sum of the two represented affine points.
\<close>

definition add_words :: "PointGFp \<Rightarrow> word list \<Rightarrow> word list \<Rightarrow> word list \<Rightarrow> PointGFp" where
  "add_words this x_words y_words z_words =
     (let other = \<lparr>m_curve = m_curve this, m_coord_x = word_value x_words,
                   m_coord_y = word_value y_words, m_coord_z = word_value z_words\<rparr>
      in if is_zero other then this
         else if is_zero this then other
         else from_affine (m_curve this)
                (affine_add (m_curve this) (affine_of this) (affine_of other)))"

text \<open>
  \<open>add\<close> of point_gfp.h: the argument check comes first and throws, leaving \<open>*this\<close> as it
  was; otherwise the low \<open>p_words\<close> words of each coordinate of \<open>other\<close> go to the array
  version. The result is the value of \<open>*this\<close> afterwards and the exception thrown, if any.
\<close>

definition add :: "PointGFp \<Rightarrow> PointGFp \<Rightarrow> PointGFp \<times> error option" where
  "add this other =
     (if \<not> curve_eq (m_curve this) (m_curve other) then (this, Some Invalid_Argument)
      else
        let p_words = get_p_words (m_curve this)
        in (add_words this
              (bigint_words (nat \<bar>m_coord_x other\<bar>) p_words)
              (bigint_words (nat \<bar>m_coord_y other\<bar>) p_words)
              (bigint_words (nat \<bar>m_coord_z other\<bar>) p_words), None))"

text \<open>\<open>plus\<close> of point_gfp.h: a copy of \<open>*this\<close> with \<open>other\<close> added.\<close>

definition plus_point :: "PointGFp \<Rightarrow> PointGFp \<Rightarrow> error + PointGFp" where
  "plus_point this other =
     (case add this other of (x, None) \<Rightarrow> Inr x | (x, Some e) \<Rightarrow> Inl e)"

text \<open>Modelled from the spec: \<open>mult2\<close> is point doubling, \<open>mult2i\<close> doubles \<open>i\<close> times.\<close>

definition mult2 :: "PointGFp \<Rightarrow> PointGFp" where
  "mult2 this =
     (if is_zero this then this
      else from_affine (m_curve this)
             (affine_add (m_curve this) (affine_of this) (affine_of this)))"

primrec mult2i :: "nat \<Rightarrow> PointGFp \<Rightarrow> PointGFp" where
  "mult2i 0 this = this"
| "mult2i (Suc i) this = mult2i i (mult2 this)"

definition double_of :: "PointGFp \<Rightarrow> PointGFp" where
  "double_of this = mult2 this"

text \<open>
  Modelled from the spec: the array version of \<open>add_affine\<close> is mixed addition, the second
  operand having \<open>Z = 1\<close>. The all-zero coordinate pair, which the oblivious table lookup
  yields when no entry is selected, adds nothing.
\<close>

definition add_affine_words :: "PointGFp \<Rightarrow> word list \<Rightarrow> word list \<Rightarrow> PointGFp" where
  "add_affine_words this x_words y_words =
     (let other = \<lparr>m_curve = m_curve this, m_coord_x = word_value x_words,
                   m_coord_y = word_value y_words, m_coord_z = 1\<rparr>
      in if m_coord_x other = 0 \<and> m_coord_y other = 0 then this
         else if is_zero this then other
         else from_affine (m_curve this)
                (affine_add (m_curve this) (affine_of this) (affine_of other)))"

text \<open>\<open>add_affine\<close> of point_gfp.h; the debug-only assertion that \<open>other\<close> is affine is
  not compiled into production builds and is left out.\<close>

definition add_affine :: "PointGFp \<Rightarrow> PointGFp \<Rightarrow> error + PointGFp" where
  "add_affine this other =
     (if \<not> curve_eq (m_curve this) (m_curve other) then Inl Assertion_Failure
      else
        let p_words = get_p_words (m_curve this)
        in Inr (add_affine_words this
                  (bigint_words (nat \<bar>m_coord_x other\<bar>) p_words)
                  (bigint_words (nat \<bar>m_coord_y other\<bar>) p_words)))"

text \<open>
  Modelled from the spec: \<open>force_all_affine\<close> converts every point of a batch to the
  representation with \<open>Z = 1\<close>, with the same results as converting each point on its own.
  The identity has no affine form and converting it is refused.
\<close>

definition force_affine :: "PointGFp \<Rightarrow> error + PointGFp" where
  "force_affine P =
     (if is_zero P then Inl Invalid_State
      else Inr (from_affine (m_curve P) (affine_of P)))"

primrec emap :: "('a \<Rightarrow> error + 'b) \<Rightarrow> 'a list \<Rightarrow> error + 'b list" where
  "emap f [] = Inr []"
| "emap f (x # xs) = ebind (f x) (\<lambda>y. ebind (emap f xs) (\<lambda>ys. Inr (y # ys)))"

definition force_all_affine :: "PointGFp list \<Rightarrow> error + PointGFp list" where
  "force_all_affine points = emap force_affine points"

section \<open>Random number generator\<close>

text \<open>
  Modelled from the spec: the RNG supplies random values and tells whether it is seeded.
  Its state is the sequence of raw values it will hand out and the position in it.
\<close>

record RandomNumberGenerator =
  is_seeded :: bool
  rng_source :: "nat \<Rightarrow> nat"
  rng_pos :: nat

definition rng_next :: "RandomNumberGenerator \<Rightarrow> nat \<times> RandomNumberGenerator" where
  "rng_next rng = (rng_source rng (rng_pos rng), rng\<lparr>rng_pos := Suc (rng_pos rng)\<rparr>)"

text \<open>Modelled from the spec: \<open>BigInt(rng, bits, set_high_bit)\<close> and \<open>BigInt::randomize\<close>, a
  random value of at most \<open>bits\<close> bits, of exactly \<open>bits\<close> bits when the high bit is set.\<close>

definition random_bigint :: "RandomNumberGenerator \<Rightarrow> nat \<Rightarrow> bool \<Rightarrow> int \<times> RandomNumberGenerator" where
  "random_bigint rng bitsize set_high_bit =
     (let (r, rng') = rng_next rng
      in if bitsize = 0 then (0, rng')
         else if set_high_bit then (int (r mod 2 ^ (bitsize - 1) + 2 ^ (bitsize - 1)), rng')
         else (int (r mod 2 ^ bitsize), rng'))"

text \<open>Modelled from the spec: \<open>randomize_repr\<close> re-homogenizes \<open>(X, Y, Z)\<close> to
  \<open>(r\<^sup>2 X, r\<^sup>3 Y, r Z)\<close> for a random nonzero \<open>r\<close> below \<open>p\<close>.\<close>

definition scale_repr :: "int \<Rightarrow> PointGFp \<Rightarrow> PointGFp" where
  "scale_repr r P =
     (let p = get_p (m_curve P);
          r2 = (r * r) mod p;
          r3 = (r2 * r) mod p
      in P\<lparr>m_coord_x := (m_coord_x P * r2) mod p,
           m_coord_y := (m_coord_y P * r3) mod p,
           m_coord_z := (m_coord_z P * r) mod p\<rparr>)"

definition randomize_repr :: "PointGFp \<Rightarrow> RandomNumberGenerator \<Rightarrow> PointGFp \<times> RandomNumberGenerator" where
  "randomize_repr P rng =
     (let (raw, rng') = rng_next rng;
          r = 1 + int raw mod (get_p (m_curve P) - 1)
      in (scale_repr r P, rng'))"

section \<open>Fixed-base precomputation engine\<close>

text \<open>Modelled from the spec: the window constants of point_mul.h. A window holds the 7
  nonzero combinations of \<open>g, 2g, 4g\<close>, so it covers 3 bits of the scalar.\<close>

definition WINDOW_BITS :: nat where
  "WINDOW_BITS = 3"

definition WINDOW_SIZE :: nat where
  "WINDOW_SIZE = 7"

definition blinding_size :: "int \<Rightarrow> nat" where
  "blinding_size group_order = (bits group_order + 1) div 2"

record PointGFp_Base_Point_Precompute =
  m_base_point :: PointGFp
  m_mod_order :: int
  m_p_words :: nat
  m_W :: "word list"

text \<open>The table loop of the constructor; the first argument counts the windows still to
  fill, the list is the part of \<open>T\<close> written from the current window on.\<close>

primrec base_table :: "nat \<Rightarrow> PointGFp \<Rightarrow> error + PointGFp list" where
  "base_table 0 g = Inr []"
| "base_table (Suc n) g =
     (let g2 = mult2 g; g4 = mult2 g2
      in ebind (plus_point g2 g) (\<lambda>t2.
         ebind (plus_point g4 g) (\<lambda>t4.
         ebind (plus_point g4 g2) (\<lambda>t5.
         ebind (plus_point g4 t2) (\<lambda>t6.
         ebind (base_table n (mult2 g4)) (\<lambda>rest.
         Inr ([g, g2, t2, g4, t4, t5, t6] @ rest)))))))"

primrec encode_xy :: "nat \<Rightarrow> PointGFp list \<Rightarrow> error + word list" where
  "encode_xy p_words [] = Inr []"
| "encode_xy p_words (P # Ps) =
     ebind (encode_words (m_coord_x P) p_words) (\<lambda>xw.
     ebind (encode_words (m_coord_y P) p_words) (\<lambda>yw.
     ebind (encode_xy p_words Ps) (\<lambda>rest. Inr (xw @ yw @ rest))))"

definition Base_T_bits :: "PointGFp \<Rightarrow> int \<Rightarrow> nat" where
  "Base_T_bits base mod_order =
     round_up (bits (get_p (m_curve base)) + blinding_size mod_order + 1) WINDOW_BITS
       div WINDOW_BITS"

definition Base_Point_Precompute :: "PointGFp \<Rightarrow> int \<Rightarrow> error + PointGFp_Base_Point_Precompute" where
  "Base_Point_Precompute base mod_order =
     (let p_words = sig_words (get_p (m_curve base));
          T_bits = Base_T_bits base mod_order
      in ebind (base_table T_bits base) (\<lambda>T.
         ebind (force_all_affine T) (\<lambda>T'.
         ebind (encode_xy p_words T') (\<lambda>W.
         Inr \<lparr>m_base_point = base, m_mod_order = mod_order,
              m_p_words = p_words, m_W = W\<rparr>))))"

text \<open>An indexed read of a word table.\<close>

definition read_word :: "word list \<Rightarrow> nat \<Rightarrow> error + word" where
  "read_word W i = (if i < length W then Inr (W ! i) else Inl Out_Of_Bounds)"

text \<open>Lines 93 to 117 of \<open>mul\<close>: the scalar the window loop works on.\<close>

definition base_blinded_scalar ::
  "PointGFp_Base_Point_Precompute \<Rightarrow> int \<Rightarrow> RandomNumberGenerator \<Rightarrow> int
     \<Rightarrow> int \<times> RandomNumberGenerator" where
  "base_blinded_scalar E k rng group_order =
     (let scalar = reduce (m_mod_order E) k
      in if is_seeded rng then
           (let (mask, rng') = random_bigint rng (blinding_size group_order) True
            in (scalar + group_order * mask, rng'))
         else
           (let scalar1 = scalar + group_order;
                scalar2 = (if bits scalar1 = bits group_order then scalar1 + group_order
                           else scalar1)
            in (scalar2, rng)))"

text \<open>The inner loop over \<open>j\<close>: one word of \<open>Wt\<close>, read from all seven entries of the window.\<close>

definition base_select_word :: "word list \<Rightarrow> nat \<Rightarrow> nat \<Rightarrow> nat \<Rightarrow> nat \<Rightarrow> error + word" where
  "base_select_word W base_addr elem_size w j =
     ebind (read_word W (base_addr + 0 * elem_size + j)) (\<lambda>r1.
     ebind (read_word W (base_addr + 1 * elem_size + j)) (\<lambda>r2.
     ebind (read_word W (base_addr + 2 * elem_size + j)) (\<lambda>r3.
     ebind (read_word W (base_addr + 3 * elem_size + j)) (\<lambda>r4.
     ebind (read_word W (base_addr + 4 * elem_size + j)) (\<lambda>r5.
     ebind (read_word W (base_addr + 5 * elem_size + j)) (\<lambda>r6.
     ebind (read_word W (base_addr + 6 * elem_size + j)) (\<lambda>r7.
     Inr (if_set_return (Mask_is_equal w 1) r1 OR if_set_return (Mask_is_equal w 2) r2
          OR if_set_return (Mask_is_equal w 3) r3 OR if_set_return (Mask_is_equal w 4) r4
          OR if_set_return (Mask_is_equal w 5) r5 OR if_set_return (Mask_is_equal w 6) r6
          OR if_set_return (Mask_is_equal w 7) r7))))))))"

definition base_select :: "word list \<Rightarrow> nat \<Rightarrow> nat \<Rightarrow> nat \<Rightarrow> error + word list" where
  "base_select W base_addr elem_size w =
     emap (base_select_word W base_addr elem_size w) [0..<elem_size]"

text \<open>The window loop: the second argument is the number of windows, the third the number
  of iterations still to run, so the loop counter is their difference.\<close>

primrec base_mul_loop ::
  "PointGFp_Base_Point_Precompute \<Rightarrow> int \<Rightarrow> nat \<Rightarrow> nat \<Rightarrow> PointGFp \<Rightarrow> RandomNumberGenerator
     \<Rightarrow> error + PointGFp" where
  "base_mul_loop E scalar windows 0 R rng = Inr R"
| "base_mul_loop E scalar windows (Suc n) R rng =
     (let i = windows - Suc n;
          elem_size = 2 * m_p_words E;
          window = windows - i - 1;
          base_addr = (WINDOW_SIZE * window) * elem_size;
          w = get_substring scalar (WINDOW_BITS * window) WINDOW_BITS
      in ebind (base_select (m_W E) base_addr elem_size w) (\<lambda>Wt.
           let R1 = add_affine_words R (take (m_p_words E) Wt) (drop (m_p_words E) Wt);
               (R2, rng2) = (if i = 0 \<and> is_seeded rng then randomize_repr R1 rng
                             else (R1, rng))
           in base_mul_loop E scalar windows n R2 rng2))"

text \<open>
  \<open>PointGFp_Base_Point_Precompute::mul\<close>. The debug-only assertions are not compiled into
  production builds and are left out. (Where \<open>elem_size\<close> is 0 the division of the
  assertion traps on the machine; in HOL the quotient is 0.)
\<close>

definition Base_mul ::
  "PointGFp_Base_Point_Precompute \<Rightarrow> int \<Rightarrow> RandomNumberGenerator \<Rightarrow> int \<Rightarrow> error + PointGFp" where
  "Base_mul E k rng group_order =
     (if is_negative k then Inl Invalid_Argument
      else
        let (scalar, rng1) = base_blinded_scalar E k rng group_order;
            windows = round_up (bits scalar) WINDOW_BITS div WINDOW_BITS;
            elem_size = 2 * m_p_words E
        in if \<not> windows \<le> length (m_W E) div (3 * elem_size) then Inl Assertion_Failure
           else base_mul_loop E scalar windows windows (zero_point (m_base_point E)) rng1)"

section \<open>Variable-point precomputation engine\<close>

record PointGFp_Var_Point_Precompute =
  var_m_curve :: CurveGFp
  var_m_p_words :: nat
  m_window_bits :: nat
  m_T :: "word list"

text \<open>Modelled from the spec: a default-constructed \<open>PointGFp\<close>, as the elements of a fresh
  \<open>std::vector<PointGFp>\<close> are, has an empty curve and zero coordinates.\<close>

definition PointGFp_default :: PointGFp where
  "PointGFp_default =
     \<lparr>m_curve = \<lparr>m_repr = 0, get_p = 0, get_a = 0, get_b = 0\<rparr>,
      m_coord_x = 0, m_coord_y = 0, m_coord_z = 0\<rparr>"

text \<open>The doubling loop \<open>for(i = 2; i < U.size(); i += 2)\<close>. \<open>U\<close> has 16 elements, so
  \<open>U[i+1]\<close> is always an element of it.\<close>

function var_table_loop :: "PointGFp \<Rightarrow> nat \<Rightarrow> PointGFp list \<Rightarrow> error + PointGFp list" where
  "var_table_loop point i U =
     (if i < length U then
        let U1 = U[i := double_of (U ! (i div 2))]
        in ebind (plus_point (U1 ! i) point) (\<lambda>v.
             var_table_loop point (i + 2) (U1[i + 1 := v]))
      else Inr U)"
  by pat_completeness auto
termination
  by (relation "measure (\<lambda>(point, i, U). length U - i)") auto

declare var_table_loop.simps [simp del]

text \<open>The randomization loop over \<open>U[1], U[2], ...\<close>; \<open>curve.sqr\<close> and \<open>curve.mul\<close> are
  squaring and multiplication modulo \<open>p\<close> (modelled from the spec: the reduction context of
  the curve descriptor).\<close>

primrec var_randomize ::
  "CurveGFp \<Rightarrow> PointGFp list \<Rightarrow> RandomNumberGenerator \<Rightarrow> PointGFp list \<times> RandomNumberGenerator" where
  "var_randomize curve [] rng = ([], rng)"
| "var_randomize curve (Ui # Us) rng =
     (let p = get_p curve;
          p_bits = bits p;
          (mask0, rng1) = random_bigint rng (p_bits - 1) False;
          mask = (if even mask0 then mask0 + 1 else mask0);
          mask2 = (mask * mask) mod p;
          mask3 = (mask * mask2) mod p;
          new_x = (m_coord_x Ui * mask2) mod p;
          new_y = (m_coord_y Ui * mask3) mod p;
          new_z = (m_coord_z Ui * mask) mod p;
          Ui' = Ui\<lparr>m_coord_x := new_x, m_coord_y := new_y, m_coord_z := new_z\<rparr>;
          (Us', rng2) = var_randomize curve Us rng1
      in (Ui' # Us', rng2))"

primrec encode_xyz :: "nat \<Rightarrow> PointGFp list \<Rightarrow> error + word list" where
  "encode_xyz p_words [] = Inr []"
| "encode_xyz p_words (P # Ps) =
     ebind (encode_words (m_coord_x P) p_words) (\<lambda>xw.
     ebind (encode_words (m_coord_y P) p_words) (\<lambda>yw.
     ebind (encode_words (m_coord_z P) p_words) (\<lambda>zw.
     ebind (encode_xyz p_words Ps) (\<lambda>rest. Inr (xw @ yw @ zw @ rest)))))"

text \<open>The table \<open>U\<close> of the constructor before it is encoded.\<close>

definition var_U ::
  "PointGFp \<Rightarrow> RandomNumberGenerator \<Rightarrow> error + (PointGFp list \<times> RandomNumberGenerator)" where
  "var_U point rng =
     (let window_bits = 4;
          U0 = (replicate (2 ^ window_bits) PointGFp_default)[0 := zero_point point, 1 := point]
      in ebind (var_table_loop point 2 U0) (\<lambda>U.
           if is_seeded rng then
             (let (Us, rng') = var_randomize (m_curve (U ! 0)) (tl U) rng
              in Inr (hd U # Us, rng'))
           else Inr (U, rng)))"

definition Var_Point_Precompute ::
  "PointGFp \<Rightarrow> RandomNumberGenerator
     \<Rightarrow> error + (PointGFp_Var_Point_Precompute \<times> RandomNumberGenerator)" where
  "Var_Point_Precompute point rng =
     (let curve = m_curve point;
          p_words = sig_words (get_p curve)
      in ebind (var_U point rng) (\<lambda>(U, rng').
         ebind (encode_xyz p_words U) (\<lambda>T.
         Inr (\<lparr>var_m_curve = curve, var_m_p_words = p_words, m_window_bits = 4, m_T = T\<rparr>,
              rng'))))"

text \<open>The oblivious lookup: for each \<open>i\<close> from 1, every word of entry \<open>i\<close> is read and
  masked into \<open>e\<close>.\<close>

definition var_select_step :: "word list \<Rightarrow> nat \<Rightarrow> nat \<Rightarrow> nat \<Rightarrow> word list \<Rightarrow> error + word list" where
  "var_select_step T elem_size w i e =
     emap (\<lambda>j. ebind (read_word T (i * elem_size + j)) (\<lambda>r.
                  Inr ((e ! j) OR if_set_return (Mask_is_equal w i) r)))
          [0..<elem_size]"

primrec var_select_loop :: "word list \<Rightarrow> nat \<Rightarrow> nat \<Rightarrow> nat list \<Rightarrow> word list \<Rightarrow> error + word list" where
  "var_select_loop T elem_size w [] e = Inr e"
| "var_select_loop T elem_size w (i # rest) e =
     ebind (var_select_step T elem_size w i e) (var_select_loop T elem_size w rest)"

definition var_select :: "PointGFp_Var_Point_Precompute \<Rightarrow> nat \<Rightarrow> error + word list" where
  "var_select E w =
     (let elem_size = 3 * var_m_p_words E;
          window_elems = 2 ^ m_window_bits E
      in var_select_loop (m_T E) elem_size w [1..<window_elems] (replicate elem_size 0))"

definition var_add_selected :: "PointGFp_Var_Point_Precompute \<Rightarrow> PointGFp \<Rightarrow> word list \<Rightarrow> PointGFp" where
  "var_add_selected E R e =
     (let n = var_m_p_words E
      in add_words R (take n e) (take n (drop n e)) (take n (drop (2 * n) e)))"

text \<open>The loop \<open>while(windows)\<close>.\<close>

primrec var_mul_loop ::
  "PointGFp_Var_Point_Precompute \<Rightarrow> int \<Rightarrow> nat \<Rightarrow> PointGFp \<Rightarrow> error + PointGFp" where
  "var_mul_loop E scalar 0 R = Inr R"
| "var_mul_loop E scalar (Suc n) R =
     (let R1 = mult2i (m_window_bits E) R;
          w = get_substring scalar (n * m_window_bits E) (m_window_bits E)
      in ebind (var_select E w) (\<lambda>e. var_mul_loop E scalar n (var_add_selected E R1 e)))"

definition var_blinded_scalar ::
  "int \<Rightarrow> RandomNumberGenerator \<Rightarrow> int \<Rightarrow> int \<times> RandomNumberGenerator" where
  "var_blinded_scalar k rng group_order =
     (let (mask, rng') = random_bigint rng (blinding_size group_order) False
      in (k + group_order * mask, rng'))"

text \<open>\<open>PointGFp_Var_Point_Precompute::mul\<close>, without the debug-only assertion.\<close>

definition Var_mul ::
  "PointGFp_Var_Point_Precompute \<Rightarrow> int \<Rightarrow> RandomNumberGenerator \<Rightarrow> int \<Rightarrow> error + PointGFp" where
  "Var_mul E k rng group_order =
     (if is_negative k then Inl Invalid_Argument
      else
        let (scalar, rng1) = var_blinded_scalar k rng group_order;
            windows = round_up (bits scalar) (m_window_bits E) div m_window_bits E;
            R = zero_of_curve (var_m_curve E)
        in if windows > 0 then
             (let windows1 = windows - 1;
                  w = get_substring scalar (windows1 * m_window_bits E) (m_window_bits E)
              in ebind (var_select E w) (\<lambda>e.
                   let R1 = var_add_selected E R e;
                       (R2, rng2) = randomize_repr R1 rng1
                   in var_mul_loop E scalar windows1 R2))
           else var_mul_loop E scalar windows R)"

text \<open>Entry \<open>i\<close> of the flat table, read back as the Jacobian triple it stores: three
  runs of \<open>p_words\<close> words, as \<open>mul\<close> hands them to \<open>add\<close>.\<close>

definition var_entry :: "PointGFp_Var_Point_Precompute \<Rightarrow> nat \<Rightarrow> PointGFp" where
  "var_entry E i =
     (let n = var_m_p_words E;
          e = take (3 * n) (drop (i * (3 * n)) (m_T E))
      in \<lparr>m_curve = var_m_curve E,
          m_coord_x = word_value (take n e),
          m_coord_y = word_value (take n (drop n e)),
          m_coord_z = word_value (take n (drop (2 * n) e))\<rparr>)"

section \<open>Multi-scalar engine\<close>

record PointGFp_Multi_Point_Precompute =
  m_M :: "PointGFp list"
  m_no_infinity :: bool

text \<open>The constructor. On the early return \<open>m_no_infinity\<close> is left unassigned by the
  source; \<open>multi_exp\<close> does not read it then, and the model puts \<open>False\<close> there.\<close>

definition Multi_Point_Precompute ::
  "PointGFp \<Rightarrow> PointGFp \<Rightarrow> error + PointGFp_Multi_Point_Precompute" where
  "Multi_Point_Precompute x y =
     (if on_the_curve x = False \<or> on_the_curve y = False
      then Inr \<lparr>m_M = [zero_point x], m_no_infinity = False\<rparr>
      else
        let x2 = mult2 x in
        ebind (plus_point x2 x) (\<lambda>x3.
        let y2 = mult2 y in
        ebind (plus_point y2 y) (\<lambda>y3.
        ebind (plus_point y x) (\<lambda>y_x.
        ebind (plus_point y x2) (\<lambda>y_x2.
        ebind (plus_point y x3) (\<lambda>y_x3.
        ebind (plus_point y2 x) (\<lambda>y2_x.
        ebind (plus_point y2 x2) (\<lambda>y2_x2.
        ebind (plus_point y2 x3) (\<lambda>y2_x3.
        ebind (plus_point y3 x) (\<lambda>y3_x.
        ebind (plus_point y3 x2) (\<lambda>y3_x2.
        ebind (plus_point y3 x3) (\<lambda>y3_x3.
        let M = [x, x2, x3, y, y_x, y_x2, y_x3, y2, y2_x, y2_x2, y2_x3,
                 y3, y3_x, y3_x2, y3_x3];
            no_infinity = list_all (\<lambda>pt. \<not> is_zero pt) M
        in ebind (if no_infinity then force_all_affine M else Inr M) (\<lambda>M'.
           Inr \<lparr>m_M = M', m_no_infinity = no_infinity\<rparr>)))))))))))))"

definition read_point :: "PointGFp list \<Rightarrow> nat \<Rightarrow> error + PointGFp" where
  "read_point M i = (if i < length M then Inr (M ! i) else Inl Out_Of_Bounds)"

text \<open>The loop \<open>for(i = 0; i != z_bits; i += 2)\<close>; the fourth argument counts the iterations
  still to run, so \<open>i = z_bits - 2 * (n + 1)\<close> in the step.\<close>

primrec multi_exp_loop ::
  "PointGFp_Multi_Point_Precompute \<Rightarrow> int \<Rightarrow> int \<Rightarrow> nat \<Rightarrow> nat \<Rightarrow> PointGFp \<Rightarrow> error + PointGFp" where
  "multi_exp_loop E z1 z2 z_bits 0 H = Inr H"
| "multi_exp_loop E z1 z2 z_bits (Suc n) H =
     (let i = z_bits - 2 * Suc n;
          H1 = (if i > 0 then mult2i 2 H else H);
          z1_b = get_substring z1 (z_bits - i - 2) 2;
          z2_b = get_substring z2 (z_bits - i - 2) 2;
          z12 = 4 * z2_b + z1_b
      in if z12 \<noteq> 0 then
           ebind (read_point (m_M E) (z12 - 1)) (\<lambda>M_z12.
           ebind (if m_no_infinity E then add_affine H1 M_z12
                  else (case add H1 M_z12 of (H', None) \<Rightarrow> Inr H' | (H', Some e) \<Rightarrow> Inl e))
             (multi_exp_loop E z1 z2 z_bits n))
         else multi_exp_loop E z1 z2 z_bits n H1)"

definition multi_exp ::
  "PointGFp_Multi_Point_Precompute \<Rightarrow> int \<Rightarrow> int \<Rightarrow> error + PointGFp" where
  "multi_exp E z1 z2 =
     (if length (m_M E) = 1 then read_point (m_M E) 0
      else
        let z_bits = round_up (max (bits z1) (bits z2)) 2
        in ebind (read_point (m_M E) 0) (\<lambda>M0.
           ebind (multi_exp_loop E z1 z2 z_bits (z_bits div 2) (zero_point M0)) (\<lambda>H.
           Inr (if is_negative z1 \<noteq> is_negative z2 then negate H else H))))"

text \<open>\<open>multi_exponentiate\<close>.\<close>

definition multi_exponentiate :: "PointGFp \<Rightarrow> int \<Rightarrow> PointGFp \<Rightarrow> int \<Rightarrow> error + PointGFp" where
  "multi_exponentiate x z1 y z2 =
     ebind (Multi_Point_Precompute x y) (\<lambda>xy_mul. multi_exp xy_mul z1 z2)"

section \<open>Well-formed points and the group of the curve\<close>

text \<open>A point is reduced when its coordinates are residues modulo \<open>p\<close>; it is valid on a
  curve when, besides, the affine point it represents satisfies the curve equation.\<close>

definition reduced :: "PointGFp \<Rightarrow> bool" where
  "reduced P =
     (0 \<le> m_coord_x P \<and> m_coord_x P < get_p (m_curve P) \<and>
      0 \<le> m_coord_y P \<and> m_coord_y P < get_p (m_curve P) \<and>
      0 \<le> m_coord_z P \<and> m_coord_z P < get_p (m_curve P))"

definition valid_point :: "CurveGFp \<Rightarrow> PointGFp \<Rightarrow> bool" where
  "valid_point c P = (m_curve P = c \<and> reduced P \<and> affine_on_curve c (affine_of P))"

text \<open>The modulus is prime: every nonzero residue is invertible.\<close>

definition prime_modulus :: "int \<Rightarrow> bool" where
  "prime_modulus p = (1 < p \<and> (\<forall>z. 0 < z \<and> z < p \<longrightarrow> coprime z p))"

text \<open>
  The points of the curve form a group under chord-and-tangent addition: the sum of two
  points of the curve is a point of the curve, and addition is associative. (The identity
  is neutral by the definition of \<open>affine_add\<close>.) This is the mathematical fact about
  elliptic curves over a prime field that the engines rely on.
\<close>

definition group_law :: "CurveGFp \<Rightarrow> bool" where
  "group_law c =
     (prime_modulus (get_p c) \<and>
      (\<forall>A B. affine_on_curve c A \<and> affine_on_curve c B
           \<longrightarrow> affine_on_curve c (affine_add c A B)) \<and>
      (\<forall>A B D. affine_on_curve c A \<and> affine_on_curve c B \<and> affine_on_curve c D
           \<longrightarrow> affine_add c (affine_add c A B) D = affine_add c A (affine_add c B D)))"

section \<open>An example: the curve \<open>y\<^sup>2 = x\<^sup>3 + 3\<close> over GF(7)\<close>

text \<open>The curve has 13 points; \<open>(1, 2)\<close> generates them.\<close>

definition curve7 :: CurveGFp where
  "curve7 = \<lparr>m_repr = 0, get_p = 7, get_a = 0, get_b = 3\<rparr>"

definition point7 :: PointGFp where
  "point7 = \<lparr>m_curve = curve7, m_coord_x = 1, m_coord_y = 2, m_coord_z = 1\<rparr>"

text \<open>The points of the curve: entry \<open>i\<close> is \<open>i\<close> times \<open>(1, 2)\<close>.\<close>

definition points7 :: "affine list" where
  "points7 = [None, Some (1, 2), Some (6, 3), Some (2, 2), Some (4, 5), Some (3, 3),
              Some (5, 3), Some (5, 4), Some (3, 4), Some (4, 2), Some (2, 5), Some (6, 4),
              Some (1, 5)]"

definition rng_unseeded :: RandomNumberGenerator where
  "rng_unseeded = \<lparr>is_seeded = False, rng_source = (\<lambda>i. 5 + 3 * i), rng_pos = 0\<rparr>"

definition rng_seeded :: RandomNumberGenerator where
  "rng_seeded = \<lparr>is_seeded = True, rng_source = (\<lambda>i. 5 + 3 * i), rng_pos = 0\<rparr>"

section \<open>Negation\<close>

lemma negate_negate: "negate (negate P) = P"
  by (simp add: negate_def is_zero_def)

text \<open>
  C10: \<open>negate\<close> sets \<open>Y\<close> to \<open>p - Y\<close> when the point is not the identity and leaves the point
  as it is when it is the identity; \<open>X\<close>, \<open>Z\<close> and the curve never change; negating twice
  gives a point equal to the original (as represented affine points; here even the same
  coordinates).
\<close>

theorem negate_spec:
  "m_coord_y (negate P) = (if is_zero P then m_coord_y P else get_p (m_curve P) - m_coord_y P)
   \<and> (is_zero P \<longrightarrow> negate P = P)
   \<and> m_coord_x (negate P) = m_coord_x P
   \<and> m_coord_z (negate P) = m_coord_z P
   \<and> m_curve (negate P) = m_curve P
   \<and> negate (negate P) = P
   \<and> point_eq (negate (negate P)) P"
  by (simp add: negate_negate point_eq_def curve_eq_def) (simp add: negate_def)

theorem negate_spec_witness:
  "is_zero (zero_of_curve \<lparr>m_repr = 0, get_p = 7, get_a = 0, get_b = 3\<rparr>)
   \<and> negate (zero_of_curve \<lparr>m_repr = 0, get_p = 7, get_a = 0, get_b = 3\<rparr>)
       = zero_of_curve \<lparr>m_repr = 0, get_p = 7, get_a = 0, get_b = 3\<rparr>"
  using negate_spec [of "zero_of_curve \<lparr>m_repr = 0, get_p = 7, get_a = 0, get_b = 3\<rparr>"]
  by (simp add: is_zero_def zero_of_curve_def)

section \<open>Addition across curves\<close>

text \<open>
  C8: for two points whose curve descriptors differ in p, a or b, \<open>add\<close> fails with
  \<open>Invalid_Argument\<close> and the left-hand point is unchanged; descriptors that agree in
  p, a and b pass the check whatever object they are.
\<close>

theorem add_curve_check:
  "(\<not> curve_eq (m_curve P) (m_curve Q) \<longrightarrow> add P Q = (P, Some Invalid_Argument))
   \<and> (get_p (m_curve P) = get_p (m_curve Q) \<and> get_a (m_curve P) = get_a (m_curve Q)
        \<and> get_b (m_curve P) = get_b (m_curve Q) \<longrightarrow> snd (add P Q) = None)"
  by (simp add: add_def curve_eq_def Let_def)

section \<open>Bit lengths\<close>

lemma bits_nat_le_iff: "bits_nat n \<le> b \<longleftrightarrow> n < 2 ^ b"
proof (induction n arbitrary: b rule: bits_nat.induct)
  case (1 n)
  show ?case
  proof (cases "n = 0")
    case True
    then show ?thesis by (simp add: bits_nat.simps)
  next
    case False
    show ?thesis
    proof (cases b)
      case 0
      with False show ?thesis by (simp add: bits_nat.simps [of n])
    next
      case (Suc b')
      have "bits_nat n = Suc (bits_nat (n div 2))"
        using False by (simp add: bits_nat.simps [of n])
      moreover have "bits_nat (n div 2) \<le> b' \<longleftrightarrow> n div 2 < 2 ^ b'"
        using 1 [OF False] .
      moreover have "n div 2 < 2 ^ b' \<longleftrightarrow> n < 2 ^ Suc b'"
        by auto
      ultimately show ?thesis using Suc by simp
    qed
  qed
qed

lemma bits_le_iff: "0 \<le> x \<Longrightarrow> bits x \<le> b \<longleftrightarrow> x < 2 ^ b"
proof -
  assume x: "0 \<le> x"
  have "nat x < 2 ^ b \<longleftrightarrow> x < 2 ^ b"
    using x by (metis nat_less_iff of_nat_numeral of_nat_power)
  then show ?thesis using x by (simp add: bits_def bits_nat_le_iff)
qed

lemma bits_eq_SucI: "2 ^ b \<le> x \<Longrightarrow> x < 2 ^ Suc b \<Longrightarrow> bits x = Suc b"
proof -
  assume lo: "2 ^ b \<le> x" and hi: "x < 2 ^ Suc b"
  have x: "0 \<le> x" using lo by (smt (verit) zero_le_power)
  have "bits x \<le> Suc b" using hi x bits_le_iff by blast
  moreover have "\<not> bits x \<le> b" using lo x bits_le_iff [of x b] by simp
  ultimately show ?thesis by simp
qed

lemma bits_0 [simp]: "bits 0 = 0"
  by (simp add: bits_def bits_nat.simps)

lemma bits_pos: "0 < x \<Longrightarrow> 0 < bits x"
  using bits_le_iff [of x 0] by simp

lemma bits_lower: "0 < x \<Longrightarrow> 2 ^ (bits x - 1) \<le> x"
proof -
  assume x: "0 < x"
  then have "0 < bits x" by (rule bits_pos)
  then have "\<not> bits x \<le> bits x - 1" by simp
  then show ?thesis using bits_le_iff [of x "bits x - 1"] x by simp
qed

lemma bits_upper: "0 \<le> x \<Longrightarrow> x < 2 ^ bits x"
  using bits_le_iff [of x "bits x"] by simp

lemma bits_mono: "0 \<le> x \<Longrightarrow> x \<le> y \<Longrightarrow> bits x \<le> bits y"
proof -
  assume x: "0 \<le> x" and xy: "x \<le> y"
  have "y < 2 ^ bits y" using bits_upper x xy by simp
  then have "x < 2 ^ bits y" using xy by simp
  then show ?thesis using bits_le_iff x by blast
qed

section \<open>Negative scalars\<close>

text \<open>
  C7: for a negative scalar both \<open>mul\<close> functions fail with \<open>Invalid_Argument\<close>; the check
  is the first statement, so nothing is computed and no point is returned.
\<close>

theorem mul_negative_scalar:
  "k < 0 \<Longrightarrow>
     Base_mul EB k rng group_order = Inl Invalid_Argument
     \<and> Var_mul EV k rng group_order = Inl Invalid_Argument"
  by (simp add: Base_mul_def Var_mul_def is_negative_def)

theorem mul_negative_scalar_witness:
  "(- 1 :: int) < 0
   \<and> Base_mul \<lparr>m_base_point = point7, m_mod_order = 13, m_p_words = 1, m_W = []\<rparr>
         (- 1) rng_seeded 13 = Inl Invalid_Argument
   \<and> Var_mul \<lparr>var_m_curve = curve7, var_m_p_words = 1, m_window_bits = 4, m_T = []\<rparr>
         (- 1) rng_seeded 13 = Inl Invalid_Argument"
  using mul_negative_scalar [of "- 1"
      "\<lparr>m_base_point = point7, m_mod_order = 13, m_p_words = 1, m_W = []\<rparr>" rng_seeded 13
      "\<lparr>var_m_curve = curve7, var_m_p_words = 1, m_window_bits = 4, m_T = []\<rparr>"]
  by simp

section \<open>The scalar of the fixed-base window loop\<close>

lemma random_bigint_high_bits:
  "bits (fst (random_bigint rng n True)) = n"
proof (cases n)
  case 0
  then show ?thesis by (simp add: random_bigint_def rng_next_def)
next
  case (Suc m)
  let ?r = "rng_source rng (rng_pos rng)"
  let ?v = "int (?r mod 2 ^ m + 2 ^ m)"
  have v: "fst (random_bigint rng n True) = ?v"
    using Suc by (simp add: random_bigint_def rng_next_def)
  have "?r mod 2 ^ m < 2 ^ m" by simp
  then have "?r mod 2 ^ m + 2 ^ m < 2 ^ Suc m" by simp
  then have hi: "?v < 2 ^ Suc m"
    by (metis of_nat_less_iff of_nat_numeral of_nat_power)
  have "(2::nat) ^ m \<le> ?r mod 2 ^ m + 2 ^ m" by simp
  then have lo: "2 ^ m \<le> ?v"
    by (metis of_nat_le_iff of_nat_numeral of_nat_power)
  show ?thesis using bits_eq_SucI [OF lo hi] v Suc by simp
qed

text \<open>
  C3: with a seeded RNG the scalar of the window loop is
  \<open>(k mod group_order) + mask * group_order\<close>, where the reducer is the one of the group
  order and \<open>mask\<close> is the random value drawn, of bit-length \<open>(group_order.bits() + 1) / 2\<close>.
\<close>

theorem base_scalar_seeded:
  assumes "is_seeded rng" and "m_mod_order E = group_order" and "0 \<le> k"
  shows "\<exists>mask rng'.
           random_bigint rng (blinding_size group_order) True = (mask, rng')
           \<and> bits mask = (bits group_order + 1) div 2
           \<and> base_blinded_scalar E k rng group_order
               = (k mod group_order + mask * group_order, rng')
           \<and> Base_mul E k rng group_order =
               (let scalar = k mod group_order + mask * group_order;
                    windows = round_up (bits scalar) WINDOW_BITS div WINDOW_BITS
                in if \<not> windows \<le> length (m_W E) div (3 * (2 * m_p_words E))
                   then Inl Assertion_Failure
                   else base_mul_loop E scalar windows windows (zero_point (m_base_point E)) rng')"
proof -
  obtain mask rng' where r: "random_bigint rng (blinding_size group_order) True = (mask, rng')"
    by (cases "random_bigint rng (blinding_size group_order) True")
  have b: "bits mask = (bits group_order + 1) div 2"
    using random_bigint_high_bits [of rng "blinding_size group_order"] r
    by (simp add: blinding_size_def)
  have s: "base_blinded_scalar E k rng group_order
             = (k mod group_order + mask * group_order, rng')"
    using assms r by (simp add: base_blinded_scalar_def reduce_def mult.commute)
  have "Base_mul E k rng group_order =
               (let scalar = k mod group_order + mask * group_order;
                    windows = round_up (bits scalar) WINDOW_BITS div WINDOW_BITS
                in if \<not> windows \<le> length (m_W E) div (3 * (2 * m_p_words E))
                   then Inl Assertion_Failure
                   else base_mul_loop E scalar windows windows (zero_point (m_base_point E)) rng')"
    using assms(3) s by (simp add: Base_mul_def is_negative_def Let_def)
  with r b s show ?thesis by blast
qed

theorem base_scalar_seeded_witness:
  "is_seeded rng_seeded \<and> (0::int) \<le> 5 \<and>
   (\<exists>mask rng'.
      random_bigint rng_seeded (blinding_size 13) True = (mask, rng')
      \<and> bits mask = (bits 13 + 1) div 2
      \<and> base_blinded_scalar
            \<lparr>m_base_point = point7, m_mod_order = 13, m_p_words = 1, m_W = []\<rparr> 5 rng_seeded 13
          = (5 mod 13 + mask * 13, rng'))"
  using base_scalar_seeded [of rng_seeded
      "\<lparr>m_base_point = point7, m_mod_order = 13, m_p_words = 1, m_W = []\<rparr>" 13 5]
  by (auto simp add: rng_seeded_def)

section \<open>Padding without a seeded RNG\<close>

lemma pad_bits:
  assumes q: "0 < q" and r0: "0 \<le> r" and rq: "r < q"
  shows "bits (if bits (r + q) = bits q then r + q + q else r + q) = bits q + 1"
proof -
  obtain b where b: "bits q = Suc b"
    using bits_pos [OF q] by (cases "bits q") auto
  have lo: "2 ^ b \<le> q" using bits_lower [OF q] b by simp
  have hi: "q < 2 ^ Suc b" using bits_upper [of q] q b by simp
  show ?thesis
  proof (cases "bits (r + q) = bits q")
    case True
    then have "bits (r + q) \<le> Suc b" using b by simp
    then have "r + q < 2 ^ Suc b" using bits_le_iff [of "r + q" "Suc b"] r0 q by simp
    then have h: "r + q + q < 2 ^ Suc (Suc b)" using hi by simp
    have l: "2 ^ Suc b \<le> r + q + q" using lo r0 by simp
    show ?thesis using True bits_eq_SucI [OF l h] b by simp
  next
    case False
    have h: "r + q < 2 ^ Suc (Suc b)" using hi rq by simp
    then have le: "bits (r + q) \<le> Suc (Suc b)" using bits_le_iff [of "r + q"] r0 q by simp
    have "bits q \<le> bits (r + q)" using bits_mono [of q "r + q"] q r0 by simp
    with False le b show ?thesis by simp
  qed
qed

text \<open>
  C4: without a seeded RNG the scalar of the window loop is the reduced scalar plus one or
  two copies of \<open>group_order\<close>, and its bit-length is \<open>group_order.bits() + 1\<close>, for every
  \<open>k \<ge> 0\<close> and \<open>group_order > 0\<close> (the reducer being the one of the group order).
\<close>

theorem base_scalar_unseeded:
  assumes "\<not> is_seeded rng" and "m_mod_order E = group_order"
    and "0 \<le> k" and "0 < group_order"
  shows "(fst (base_blinded_scalar E k rng group_order)
            = reduce (m_mod_order E) k + group_order
          \<or> fst (base_blinded_scalar E k rng group_order)
            = reduce (m_mod_order E) k + group_order + group_order)
         \<and> bits (fst (base_blinded_scalar E k rng group_order)) = bits group_order + 1
         \<and> Base_mul E k rng group_order =
             (let scalar = fst (base_blinded_scalar E k rng group_order);
                  windows = round_up (bits scalar) WINDOW_BITS div WINDOW_BITS
              in if \<not> windows \<le> length (m_W E) div (3 * (2 * m_p_words E))
                 then Inl Assertion_Failure
                 else base_mul_loop E scalar windows windows (zero_point (m_base_point E)) rng)"
proof -
  let ?r = "reduce (m_mod_order E) k"
  have r0: "0 \<le> ?r" and rq: "?r < group_order"
    using assms by (simp_all add: reduce_def)
  have s: "base_blinded_scalar E k rng group_order =
             ((if bits (?r + group_order) = bits group_order then ?r + group_order + group_order
               else ?r + group_order), rng)"
    using assms(1) by (simp add: base_blinded_scalar_def Let_def)
  have b: "bits (fst (base_blinded_scalar E k rng group_order)) = bits group_order + 1"
    using pad_bits [OF assms(4) r0 rq] s by simp
  have m: "Base_mul E k rng group_order =
             (let scalar = fst (base_blinded_scalar E k rng group_order);
                  windows = round_up (bits scalar) WINDOW_BITS div WINDOW_BITS
              in if \<not> windows \<le> length (m_W E) div (3 * (2 * m_p_words E))
                 then Inl Assertion_Failure
                 else base_mul_loop E scalar windows windows (zero_point (m_base_point E)) rng)"
    using assms(3) s by (simp add: Base_mul_def is_negative_def Let_def)
  from s b m show ?thesis by (simp split: if_splits)
qed

theorem base_scalar_unseeded_witness:
  "\<not> is_seeded rng_unseeded \<and> (0::int) \<le> 5 \<and> (0::int) < 13 \<and>
   bits (fst (base_blinded_scalar
        \<lparr>m_base_point = point7, m_mod_order = 13, m_p_words = 1, m_W = []\<rparr> 5 rng_unseeded 13))
     = bits 13 + 1"
  using base_scalar_unseeded [of rng_unseeded
      "\<lparr>m_base_point = point7, m_mod_order = 13, m_p_words = 1, m_W = []\<rparr>" 13 5]
  by (simp add: rng_unseeded_def)

section \<open>Multi-scalar engine on a point off the curve\<close>

text \<open>
  C6: if either input point fails the on-curve check, the table of the multi-scalar engine
  is the single identity point, and \<open>multi_exp\<close> returns the identity for all scalar pairs.
\<close>

theorem multi_point_fail_closed:
  assumes "\<not> on_the_curve x \<or> \<not> on_the_curve y"
  shows "\<exists>E. Multi_Point_Precompute x y = Inr E
           \<and> m_M E = [zero_point x]
           \<and> is_zero (zero_point x)
           \<and> affine_of (zero_point x) = None
           \<and> (\<forall>z1 z2. multi_exp E z1 z2 = Inr (zero_point x))
           \<and> (\<forall>z1 z2. multi_exponentiate x z1 y z2 = Inr (zero_point x))"
  using assms
  by (auto simp add: Multi_Point_Precompute_def multi_exp_def read_point_def
      multi_exponentiate_def ebind_def zero_point_def zero_of_curve_def is_zero_def
      affine_of_def)

theorem multi_point_fail_closed_witness:
  "\<not> on_the_curve \<lparr>m_curve = curve7, m_coord_x = 1, m_coord_y = 1, m_coord_z = 1\<rparr>
   \<and> (\<forall>z1 z2. multi_exponentiate
          \<lparr>m_curve = curve7, m_coord_x = 1, m_coord_y = 1, m_coord_z = 1\<rparr> z1 point7 z2
        = Inr (zero_point \<lparr>m_curve = curve7, m_coord_x = 1, m_coord_y = 1, m_coord_z = 1\<rparr>))"
proof -
  have h: "\<not> on_the_curve \<lparr>m_curve = curve7, m_coord_x = 1, m_coord_y = 1, m_coord_z = 1\<rparr>"
    by (simp add: on_the_curve_def is_zero_def curve7_def)
  then have "\<not> on_the_curve \<lparr>m_curve = curve7, m_coord_x = 1, m_coord_y = 1, m_coord_z = 1\<rparr>
             \<or> \<not> on_the_curve point7"
    by simp
  from multi_point_fail_closed [OF this] h show ?thesis by blast
qed

section \<open>Addition across curves: an instance\<close>

theorem add_curve_check_witness:
  "\<not> curve_eq (m_curve point7) \<lparr>m_repr = 1, get_p = 11, get_a = 1, get_b = 6\<rparr>
   \<and> add point7 \<lparr>m_curve = \<lparr>m_repr = 1, get_p = 11, get_a = 1, get_b = 6\<rparr>,
                    m_coord_x = 2, m_coord_y = 4, m_coord_z = 1\<rparr>
       = (point7, Some Invalid_Argument)
   \<and> snd (add point7 \<lparr>m_curve = \<lparr>m_repr = 5, get_p = 7, get_a = 0, get_b = 3\<rparr>,
                         m_coord_x = 6, m_coord_y = 3, m_coord_z = 1\<rparr>) = None"
  using add_curve_check [of point7 "\<lparr>m_curve = \<lparr>m_repr = 1, get_p = 11, get_a = 1, get_b = 6\<rparr>,
                    m_coord_x = 2, m_coord_y = 4, m_coord_z = 1\<rparr>"]
    add_curve_check [of point7 "\<lparr>m_curve = \<lparr>m_repr = 5, get_p = 7, get_a = 0, get_b = 3\<rparr>,
                         m_coord_x = 6, m_coord_y = 3, m_coord_z = 1\<rparr>"]
  by (simp add: curve_eq_def point7_def curve7_def)

section \<open>Inverses modulo a prime\<close>

lemma inv_mod_range: "0 < p \<Longrightarrow> 0 \<le> inv_mod p z \<and> inv_mod p z < p"
  by (simp add: inv_mod_def)

lemma inv_mod_inverse:
  assumes p: "1 < p" and c: "coprime z p"
  shows "(z * inv_mod p z) mod p = 1"
proof -
  let ?a = "nat (z mod p)" and ?b = "nat p"
  have zp: "int ?a = z mod p" using p by simp
  have pp: "int ?b = p" using p by simp
  have "coprime (z mod p) p" using c p by (simp add: coprime_mod_left_iff)
  then have "coprime (int ?a) (int ?b)" using zp pp by simp
  then have "coprime ?a ?b" by (simp only: coprime_int_iff)
  then have "gcd ?a ?b = 1" by (simp only: coprime_iff_gcd_eq_1)
  then have "fst (bezw ?a ?b) * int ?a + snd (bezw ?a ?b) * int ?b = 1"
    using bezw_aux [of ?a ?b] by simp
  then have e: "fst (bezw ?a ?b) * (z mod p) = 1 - snd (bezw ?a ?b) * p"
    using zp pp by (simp add: algebra_simps)
  have "(z * inv_mod p z) mod p = (z * fst (bezw ?a ?b)) mod p"
    by (simp add: inv_mod_def mod_mult_right_eq)
  also have "\<dots> = ((z mod p) * fst (bezw ?a ?b)) mod p"
    by (simp only: mod_mult_left_eq)
  also have "\<dots> = (fst (bezw ?a ?b) * (z mod p)) mod p"
    by (simp only: mult.commute)
  also have "\<dots> = (1 - snd (bezw ?a ?b) * p) mod p" using e by simp
  also have "\<dots> = 1 mod p"
    by (metis mod_diff_right_eq mod_mult_self2_is_0 diff_zero)
  also have "\<dots> = 1" using p by simp
  finally show ?thesis .
qed

lemma inv_mod_unique:
  assumes p: "1 < p" and c: "coprime z p" and u: "(z * u) mod p = 1"
  shows "inv_mod p z = u mod p"
proof -
  let ?i = "inv_mod p z"
  have i: "(z * ?i) mod p = 1" using inv_mod_inverse [OF p c] .
  have "?i mod p = (?i * ((z * u) mod p)) mod p" using u by simp
  also have "\<dots> = (?i * (z * u)) mod p" by (simp add: mod_mult_right_eq)
  also have "\<dots> = ((z * ?i) * u) mod p"
    by (simp add: mult.assoc mult.left_commute mult.commute)
  also have "\<dots> = (((z * ?i) mod p) * u) mod p"
    by (simp only: mod_mult_left_eq)
  also have "\<dots> = u mod p" using i by simp
  finally have "?i mod p = u mod p" .
  moreover have "?i mod p = ?i" using inv_mod_range [of p z] p by simp
  ultimately show ?thesis by simp
qed

lemma inv_mod_one: "1 < p \<Longrightarrow> inv_mod p 1 = 1"
  using inv_mod_unique [of p 1 1] by simp

lemma inv_mod_mult:
  assumes p: "1 < p" and a: "coprime a p" and b: "coprime b p"
  shows "inv_mod p (a * b) = (inv_mod p a * inv_mod p b) mod p"
proof -
  have ab: "coprime (a * b) p" using a b by simp
  have "(a * b * (inv_mod p a * inv_mod p b)) mod p
          = (((a * inv_mod p a) mod p) * ((b * inv_mod p b) mod p)) mod p"
    by (simp add: mod_mult_eq mult.assoc mult.left_commute)
  also have "\<dots> = 1"
    using inv_mod_inverse [OF p a] inv_mod_inverse [OF p b] p by simp
  finally show ?thesis using inv_mod_unique [OF p ab] by simp
qed

lemma inv_mod_cong: "inv_mod p (z mod p) = inv_mod p z"
  by (simp add: inv_mod_def)

lemma prime_modulus_coprime:
  assumes "prime_modulus p" and "z mod p \<noteq> 0"
  shows "coprime z p"
proof -
  have p: "1 < p" using assms(1) by (simp add: prime_modulus_def)
  have "0 \<le> z mod p" "z mod p < p" using p by simp_all
  with assms(2) have "0 < z mod p" by simp
  then have "coprime (z mod p) p"
    using assms(1) \<open>z mod p < p\<close> by (simp add: prime_modulus_def)
  then show ?thesis using p by (simp add: coprime_mod_left_iff)
qed

lemma prime_modulus_mult_nonzero:
  assumes pm: "prime_modulus p" and a: "a mod p \<noteq> 0" and b: "b mod p \<noteq> 0"
  shows "(a * b) mod p \<noteq> 0"
proof
  assume z: "(a * b) mod p = 0"
  have p: "1 < p" using pm by (simp add: prime_modulus_def)
  have "coprime (a * b) p"
    using prime_modulus_coprime [OF pm a] prime_modulus_coprime [OF pm b] by simp
  moreover have "p dvd a * b" using z by auto
  ultimately have "is_unit p" using coprime_common_divisor [of "a * b" p p] by simp
  then show False using p by simp
qed

section \<open>Word arrays\<close>

lemma length_bigint_words [simp]: "length (bigint_words m n) = n"
  by (induction n arbitrary: m) simp_all

lemma word_value_bigint_words: "word_value (bigint_words m n) = int (m mod 2 ^ (64 * n))"
proof (induction n arbitrary: m)
  case 0
  then show ?case by simp
next
  case (Suc n)
  have u: "uint (of_nat m :: word) = int (m mod 2 ^ 64)"
    by (simp add: uint_nat unat_of_nat)
  have "m mod 2 ^ (64 * Suc n) = m mod (2 ^ 64 * 2 ^ (64 * n))"
    by (simp add: power_add)
  also have "\<dots> = 2 ^ 64 * (m div 2 ^ 64 mod 2 ^ (64 * n)) + m mod 2 ^ 64"
    by (rule mod_mult2_eq)
  finally have "int (m mod 2 ^ (64 * Suc n))
      = int (m mod 2 ^ 64) + 2 ^ 64 * int (m div 2 ^ 64 mod 2 ^ (64 * n))"
    by simp
  then show ?case using Suc [of "m div 2 ^ 64"] u by simp
qed

lemma bits_le_sig_words: "bits x \<le> 64 * sig_words x"
  by (simp add: sig_words_def)

lemma below_modulus_fits:
  assumes "0 \<le> x" and "x < p"
  shows "x < 2 ^ (64 * sig_words p)"
proof -
  have "bits x \<le> bits p" using assms bits_mono [of x p] by simp
  then have "bits x \<le> 64 * sig_words p" using bits_le_sig_words [of p] by simp
  then show ?thesis using bits_le_iff [OF assms(1)] by simp
qed

lemma coord_words_value:
  assumes "0 \<le> x" and "x < p"
  shows "word_value (bigint_words (nat \<bar>x\<bar>) (sig_words p)) = x"
proof -
  have "x < 2 ^ (64 * sig_words p)" using below_modulus_fits [OF assms] .
  then have "nat x < 2 ^ (64 * sig_words p)"
    using assms(1) by (metis nat_less_iff of_nat_numeral of_nat_power)
  then show ?thesis using assms(1) by (simp add: word_value_bigint_words)
qed

lemma encode_words_ok:
  assumes "0 \<le> x" and "x < p"
  shows "encode_words x (sig_words p) = Inr (bigint_words (nat \<bar>x\<bar>) (sig_words p))"
proof -
  have "bits x \<le> bits p" using assms bits_mono [of x p] by simp
  then have "sig_words x \<le> sig_words p" by (simp add: sig_words_def div_le_mono)
  then show ?thesis by (simp add: encode_words_def)
qed

section \<open>Representations of affine points\<close>

lemma affine_of_zero_of_curve [simp]: "affine_of (zero_of_curve c) = None"
  by (simp add: affine_of_def zero_of_curve_def is_zero_def)

lemma affine_of_None_iff: "affine_of P = None \<longleftrightarrow> is_zero P"
  by (simp add: affine_of_def Let_def)

lemma affine_of_unit_z:
  assumes "1 < get_p c" and "0 \<le> x" and "x < get_p c" and "0 \<le> y" and "y < get_p c"
  shows "affine_of \<lparr>m_curve = c, m_coord_x = x, m_coord_y = y, m_coord_z = 1\<rparr> = Some (x, y)"
  using assms by (simp add: affine_of_def is_zero_def inv_mod_one)

lemma affine_of_from_affine:
  assumes "1 < get_p c" and "affine_on_curve c A"
  shows "affine_of (from_affine c A) = A"
proof (cases A)
  case None
  then show ?thesis by (simp add: from_affine_def)
next
  case (Some xy)
  obtain x y where xy: "xy = (x, y)" by (cases xy)
  with Some assms show ?thesis
    by (simp add: from_affine_def affine_on_curve_def affine_of_unit_z)
qed

lemma valid_from_affine:
  assumes "1 < get_p c" and "affine_on_curve c A"
  shows "valid_point c (from_affine c A)"
proof -
  have r: "reduced (from_affine c A)"
  proof (cases A)
    case None
    then show ?thesis using assms(1) by (simp add: from_affine_def reduced_def zero_of_curve_def)
  next
    case (Some xy)
    obtain x y where xy: "xy = (x, y)" by (cases xy)
    with Some assms show ?thesis
      by (simp add: from_affine_def affine_on_curve_def reduced_def)
  qed
  have c: "m_curve (from_affine c A) = c"
    by (cases A) (auto simp add: from_affine_def zero_of_curve_def)
  show ?thesis
    using r c assms affine_of_from_affine [OF assms] by (simp add: valid_point_def)
qed

lemma affine_on_curve_None [simp]: "affine_on_curve c None"
  by (simp add: affine_on_curve_def)

lemma affine_add_None_left [simp]: "affine_add c None B = B"
  by (simp add: affine_add_def)

lemma affine_add_None_right [simp]: "affine_add c A None = A"
  by (cases A) (auto simp add: affine_add_def)

lemma valid_zero_of_curve: "1 < get_p c \<Longrightarrow> valid_point c (zero_of_curve c)"
  by (simp add: valid_point_def reduced_def zero_of_curve_def affine_of_def is_zero_def)

lemma group_law_p: "group_law c \<Longrightarrow> 1 < get_p c"
  by (simp add: group_law_def prime_modulus_def)

lemma group_law_closed:
  "group_law c \<Longrightarrow> affine_on_curve c A \<Longrightarrow> affine_on_curve c B
     \<Longrightarrow> affine_on_curve c (affine_add c A B)"
  by (simp add: group_law_def)

lemma group_law_assoc:
  "group_law c \<Longrightarrow> affine_on_curve c A \<Longrightarrow> affine_on_curve c B \<Longrightarrow> affine_on_curve c D
     \<Longrightarrow> affine_add c (affine_add c A B) D = affine_add c A (affine_add c B D)"
  by (simp add: group_law_def)

section \<open>Re-homogenizing a representation\<close>

lemma scale_repr_affine:
  assumes pm: "prime_modulus (get_p (m_curve P))" and red: "reduced P"
    and r: "r mod get_p (m_curve P) \<noteq> 0"
  shows "affine_of (scale_repr r P) = affine_of P"
proof (cases "is_zero P")
  case True
  then show ?thesis
    by (simp add: affine_of_def scale_repr_def is_zero_def Let_def)
next
  case False
  let ?p = "get_p (m_curve P)"
  let ?X = "m_coord_x P" and ?Y = "m_coord_y P" and ?Z = "m_coord_z P"
  have p: "1 < ?p" using pm by (simp add: prime_modulus_def)
  have Z: "?Z mod ?p \<noteq> 0"
    using False red by (simp add: is_zero_def reduced_def)
  have cz: "coprime ?Z ?p" using prime_modulus_coprime [OF pm Z] .
  have cr: "coprime r ?p" using prime_modulus_coprime [OF pm r] .
  have nz: "(?Z * r) mod ?p \<noteq> 0" using prime_modulus_mult_nonzero [OF pm Z r] .
  let ?iz = "inv_mod ?p ?Z" and ?ir = "inv_mod ?p r"
  have i: "inv_mod ?p ((?Z * r) mod ?p) = (?iz * ?ir) mod ?p"
    using inv_mod_mult [OF p cz cr] by (simp add: inv_mod_cong)
  have rr: "(r * ?ir) mod ?p = 1" using inv_mod_inverse [OF p cr] .
  have step: "(a * (r * ?ir)) mod ?p = a mod ?p" for a
    using rr by (metis mod_mult_right_eq mult.right_neutral)
  have x: "(?X * (r * r mod ?p) mod ?p * ((?iz * ?ir mod ?p) * (?iz * ?ir mod ?p) mod ?p)) mod ?p
            = (?X * (?iz * ?iz mod ?p)) mod ?p"
  proof -
    have "(?X * (r * r mod ?p) mod ?p * ((?iz * ?ir mod ?p) * (?iz * ?ir mod ?p) mod ?p)) mod ?p
          = (?X * (r * r) * ((?iz * ?ir) * (?iz * ?ir))) mod ?p"
      by (simp add: mod_simps)
    also have "\<dots> = (?X * (?iz * ?iz) * (r * ?ir) * (r * ?ir)) mod ?p"
      by (simp add: algebra_simps)
    also have "\<dots> = (?X * (?iz * ?iz)) mod ?p"
      by (simp only: step)
    also have "\<dots> = (?X * (?iz * ?iz mod ?p)) mod ?p"
      by (simp add: mod_simps)
    finally show ?thesis .
  qed
  have y: "(?Y * (r * r mod ?p * r mod ?p) mod ?p
              * (((?iz * ?ir mod ?p) * (?iz * ?ir mod ?p) mod ?p) * (?iz * ?ir mod ?p) mod ?p)) mod ?p
            = (?Y * ((?iz * ?iz mod ?p) * ?iz mod ?p)) mod ?p"
  proof -
    have "(?Y * (r * r mod ?p * r mod ?p) mod ?p
              * (((?iz * ?ir mod ?p) * (?iz * ?ir mod ?p) mod ?p) * (?iz * ?ir mod ?p) mod ?p)) mod ?p
          = (?Y * (r * r * r) * ((?iz * ?ir) * (?iz * ?ir) * (?iz * ?ir))) mod ?p"
      by (simp add: mod_simps)
    also have "\<dots> = (?Y * (?iz * ?iz * ?iz) * (r * ?ir) * (r * ?ir) * (r * ?ir)) mod ?p"
      by (simp add: algebra_simps)
    also have "\<dots> = (?Y * (?iz * ?iz * ?iz)) mod ?p"
      by (simp only: step)
    also have "\<dots> = (?Y * ((?iz * ?iz mod ?p) * ?iz mod ?p)) mod ?p"
      by (simp add: mod_simps)
    finally show ?thesis .
  qed
  show ?thesis
    using False nz i x y
    by (simp add: affine_of_def scale_repr_def is_zero_def Let_def)
qed

lemma scale_repr_reduced:
  "1 < get_p (m_curve P) \<Longrightarrow> reduced (scale_repr r P)"
  by (simp add: reduced_def scale_repr_def Let_def)

lemma scale_repr_curve [simp]: "m_curve (scale_repr r P) = m_curve P"
  by (simp add: scale_repr_def Let_def)

lemma scale_repr_valid:
  assumes "prime_modulus (get_p c)" and "valid_point c P" and "r mod get_p c \<noteq> 0"
  shows "valid_point c (scale_repr r P) \<and> affine_of (scale_repr r P) = affine_of P"
proof -
  have c: "m_curve P = c" and red: "reduced P" and oc: "affine_on_curve c (affine_of P)"
    using assms(2) by (simp_all add: valid_point_def)
  have p: "1 < get_p c" using assms(1) by (simp add: prime_modulus_def)
  have a: "affine_of (scale_repr r P) = affine_of P"
    using scale_repr_affine [of P r] assms c red by simp
  show ?thesis
    using a c oc scale_repr_reduced [of P r] p by (simp add: valid_point_def)
qed

section \<open>Multiples of a point\<close>

lemma affine_mult_None [simp]: "affine_mult c k None = None"
  by (induction k) simp_all

lemma affine_mult_one [simp]: "affine_mult c (Suc 0) A = A"
  by simp

lemma affine_mult_on_curve:
  assumes "group_law c" and "affine_on_curve c A"
  shows "affine_on_curve c (affine_mult c k A)"
  by (induction k) (simp_all add: group_law_closed [OF assms(1)] assms(2))

lemma affine_mult_add:
  assumes G: "group_law c" and A: "affine_on_curve c A"
  shows "affine_mult c (m + n) A = affine_add c (affine_mult c m A) (affine_mult c n A)"
proof (induction n)
  case 0
  then show ?case by simp
next
  case (Suc n)
  have "affine_mult c (m + Suc n) A = affine_add c (affine_mult c (m + n) A) A" by simp
  also have "\<dots> = affine_add c (affine_add c (affine_mult c m A) (affine_mult c n A)) A"
    using Suc by simp
  also have "\<dots> = affine_add c (affine_mult c m A) (affine_add c (affine_mult c n A) A)"
    using group_law_assoc [OF G affine_mult_on_curve [OF G A] affine_mult_on_curve [OF G A] A] .
  finally show ?case by simp
qed

lemma affine_mult_mult:
  assumes G: "group_law c" and A: "affine_on_curve c A"
  shows "affine_mult c (m * n) A = affine_mult c n (affine_mult c m A)"
proof (induction n)
  case 0
  then show ?case by simp
next
  case (Suc n)
  have "affine_mult c (m * Suc n) A = affine_mult c (m * n + m) A"
    by (simp add: add.commute)
  also have "\<dots> = affine_add c (affine_mult c (m * n) A) (affine_mult c m A)"
    using affine_mult_add [OF G A] .
  finally show ?case using Suc by simp
qed

lemma affine_mult_two: "affine_mult c 2 A = affine_add c A A"
  by (simp add: numeral_2_eq_2)

lemma affine_mult_order_multiple:
  assumes G: "group_law c" and A: "affine_on_curve c A" and q: "affine_mult c q A = None"
  shows "affine_mult c (k + m * q) A = affine_mult c k A"
proof -
  have "affine_mult c (q * m) A = affine_mult c m (affine_mult c q A)"
    using affine_mult_mult [OF G A] .
  then have "affine_mult c (m * q) A = None" using q by (simp add: mult.commute)
  then show ?thesis using affine_mult_add [OF G A, of k "m * q"] by simp
qed

lemma affine_mult_mod_order:
  assumes G: "group_law c" and A: "affine_on_curve c A" and q: "affine_mult c q A = None"
  shows "affine_mult c (k mod q) A = affine_mult c k A"
proof -
  have "affine_mult c (k mod q + (k div q) * q) A = affine_mult c (k mod q) A"
    using affine_mult_order_multiple [OF G A q] .
  then show ?thesis by simp
qed

lemma affine_mult_coprime_order:
  assumes G: "group_law c" and A: "affine_on_curve c A"
    and q: "affine_mult c q A = None" and m: "affine_mult c m A = None"
    and cop: "coprime m q"
  shows "A = None"
proof (cases "m = 0")
  case True
  then have "q = 1" using cop by simp
  then show ?thesis using q by simp
next
  case False
  then obtain x y where xy: "m * x = q * y + gcd m q"
    using bezout_nat [of m q] by blast
  then have e: "m * x = 1 + y * q" using cop by (simp add: mult.commute)
  have "affine_mult c (m * x) A = affine_mult c x (affine_mult c m A)"
    using affine_mult_mult [OF G A] .
  then have l: "affine_mult c (m * x) A = None" using m by simp
  have "affine_mult c (1 + y * q) A = affine_mult c 1 A"
    using affine_mult_order_multiple [OF G A q] .
  then show ?thesis using l e by simp
qed

section \<open>Point operations on valid points\<close>

lemma valid_pointD:
  "valid_point c P \<Longrightarrow> m_curve P = c"
  "valid_point c P \<Longrightarrow> reduced P"
  "valid_point c P \<Longrightarrow> affine_on_curve c (affine_of P)"
  by (simp_all add: valid_point_def)

lemma mult2_valid:
  assumes G: "group_law c" and P: "valid_point c P"
  shows "valid_point c (mult2 P) \<and> affine_of (mult2 P) = affine_mult c 2 (affine_of P)"
proof (cases "is_zero P")
  case True
  then have "affine_of P = None" by (simp add: affine_of_None_iff)
  with True P show ?thesis by (simp add: mult2_def)
next
  case False
  let ?A = "affine_of P"
  have oc: "affine_on_curve c (affine_add c ?A ?A)"
    using group_law_closed [OF G] valid_pointD(3) [OF P] by simp
  have "mult2 P = from_affine c (affine_add c ?A ?A)"
    using False valid_pointD(1) [OF P] by (simp add: mult2_def)
  then show ?thesis
    using valid_from_affine [OF group_law_p [OF G] oc]
      affine_of_from_affine [OF group_law_p [OF G] oc]
    by (simp add: affine_mult_two)
qed

lemma mult2i_valid:
  assumes G: "group_law c" and P: "valid_point c P"
  shows "valid_point c (mult2i i P) \<and> affine_of (mult2i i P) = affine_mult c (2 ^ i) (affine_of P)"
  using P
proof (induction i arbitrary: P)
  case 0
  then show ?case by simp
next
  case (Suc i)
  have v: "valid_point c (mult2 P)" and a: "affine_of (mult2 P) = affine_mult c 2 (affine_of P)"
    using mult2_valid [OF G Suc.prems] by simp_all
  have "affine_mult c (2 ^ i) (affine_mult c 2 (affine_of P))
          = affine_mult c (2 * 2 ^ i) (affine_of P)"
    using affine_mult_mult [OF G valid_pointD(3) [OF Suc.prems], of 2 "2 ^ i"] by simp
  then show ?case using Suc.IH [OF v] a by simp
qed

lemma add_words_valid:
  assumes G: "group_law c" and R: "valid_point c R"
    and Q: "valid_point c \<lparr>m_curve = c, m_coord_x = word_value xw, m_coord_y = word_value yw,
                            m_coord_z = word_value zw\<rparr>" (is "valid_point c ?Q")
  shows "valid_point c (add_words R xw yw zw)
         \<and> affine_of (add_words R xw yw zw) = affine_add c (affine_of R) (affine_of ?Q)"
proof -
  have cR: "m_curve R = c" using valid_pointD(1) [OF R] .
  show ?thesis
  proof (cases "is_zero ?Q")
    case True
    then have "affine_of ?Q = None" by (simp add: affine_of_None_iff)
    moreover have "add_words R xw yw zw = R"
      using True cR by (simp add: add_words_def Let_def)
    ultimately show ?thesis using R by simp
  next
    case nzQ: False
    show ?thesis
    proof (cases "is_zero R")
      case True
      then have "affine_of R = None" by (simp add: affine_of_None_iff)
      moreover have "add_words R xw yw zw = ?Q"
        using True nzQ cR by (simp add: add_words_def Let_def)
      ultimately show ?thesis using Q by simp
    next
      case False
      let ?S = "affine_add c (affine_of R) (affine_of ?Q)"
      have oc: "affine_on_curve c ?S"
        using group_law_closed [OF G valid_pointD(3) [OF R] valid_pointD(3) [OF Q]] .
      have "add_words R xw yw zw = from_affine c ?S"
        using False nzQ cR by (simp add: add_words_def Let_def)
      then show ?thesis
        using valid_from_affine [OF group_law_p [OF G] oc]
          affine_of_from_affine [OF group_law_p [OF G] oc]
        by simp
    qed
  qed
qed

lemma point_words_decode:
  assumes Q: "valid_point c Q"
  shows "\<lparr>m_curve = c,
          m_coord_x = word_value (bigint_words (nat \<bar>m_coord_x Q\<bar>) (sig_words (get_p c))),
          m_coord_y = word_value (bigint_words (nat \<bar>m_coord_y Q\<bar>) (sig_words (get_p c))),
          m_coord_z = word_value (bigint_words (nat \<bar>m_coord_z Q\<bar>) (sig_words (get_p c)))\<rparr> = Q"
proof -
  have r: "reduced Q" and c: "m_curve Q = c" using Q by (simp_all add: valid_point_def)
  have "word_value (bigint_words (nat \<bar>m_coord_x Q\<bar>) (sig_words (get_p c))) = m_coord_x Q"
    and "word_value (bigint_words (nat \<bar>m_coord_y Q\<bar>) (sig_words (get_p c))) = m_coord_y Q"
    and "word_value (bigint_words (nat \<bar>m_coord_z Q\<bar>) (sig_words (get_p c))) = m_coord_z Q"
    using r c by (simp_all only: reduced_def coord_words_value)
  then show ?thesis using c by (cases Q) simp
qed

lemma plus_point_valid:
  assumes G: "group_law c" and P: "valid_point c P" and Q: "valid_point c Q"
  shows "\<exists>R. plus_point P Q = Inr R \<and> valid_point c R
             \<and> affine_of R = affine_add c (affine_of P) (affine_of Q)"
proof -
  let ?n = "sig_words (get_p c)"
  let ?xw = "bigint_words (nat \<bar>m_coord_x Q\<bar>) ?n"
  let ?yw = "bigint_words (nat \<bar>m_coord_y Q\<bar>) ?n"
  let ?zw = "bigint_words (nat \<bar>m_coord_z Q\<bar>) ?n"
  have cP: "m_curve P = c" and cQ: "m_curve Q = c"
    using P Q by (simp_all add: valid_point_def)
  have d: "\<lparr>m_curve = c, m_coord_x = word_value ?xw, m_coord_y = word_value ?yw,
            m_coord_z = word_value ?zw\<rparr> = Q"
    using point_words_decode [OF Q] .
  have e: "plus_point P Q = Inr (add_words P ?xw ?yw ?zw)"
    using cP cQ by (simp add: plus_point_def add_def curve_eq_def get_p_words_def Let_def)
  have "valid_point c (add_words P ?xw ?yw ?zw)
        \<and> affine_of (add_words P ?xw ?yw ?zw) = affine_add c (affine_of P) (affine_of Q)"
    using add_words_valid [OF G P, of ?xw ?yw ?zw] d Q by simp
  with e show ?thesis by simp
qed

lemma add_affine_words_zero:
  "word_value xw = 0 \<Longrightarrow> word_value yw = 0 \<Longrightarrow> add_affine_words R xw yw = R"
  by (simp add: add_affine_words_def Let_def)

lemma add_affine_words_valid:
  assumes G: "group_law c" and R: "valid_point c R"
    and B: "affine_on_curve c (Some (word_value xw, word_value yw))"
    and nz: "(word_value xw, word_value yw) \<noteq> (0, 0)"
  shows "valid_point c (add_affine_words R xw yw)
         \<and> affine_of (add_affine_words R xw yw)
             = affine_add c (affine_of R) (Some (word_value xw, word_value yw))"
proof -
  let ?B = "Some (word_value xw, word_value yw)"
  let ?Q = "\<lparr>m_curve = c, m_coord_x = word_value xw, m_coord_y = word_value yw, m_coord_z = 1\<rparr>"
  have cR: "m_curve R = c" using valid_pointD(1) [OF R] .
  have p: "1 < get_p c" using group_law_p [OF G] .
  have Qf: "?Q = from_affine c ?B" by (simp add: from_affine_def)
  have vQ: "valid_point c ?Q" and aQ: "affine_of ?Q = ?B"
    using valid_from_affine [OF p B] affine_of_from_affine [OF p B] Qf by simp_all
  show ?thesis
  proof (cases "is_zero R")
    case True
    then have "affine_of R = None" by (simp add: affine_of_None_iff)
    moreover have "add_affine_words R xw yw = ?Q"
      using True nz cR by (auto simp add: add_affine_words_def Let_def)
    ultimately show ?thesis using vQ aQ by simp
  next
    case False
    let ?S = "affine_add c (affine_of R) ?B"
    have oc: "affine_on_curve c ?S"
      using group_law_closed [OF G valid_pointD(3) [OF R] B] .
    have "add_affine_words R xw yw = from_affine c ?S"
      using False nz cR aQ by (auto simp add: add_affine_words_def Let_def)
    then show ?thesis
      using valid_from_affine [OF p oc] affine_of_from_affine [OF p oc] by simp
  qed
qed

lemma randomize_repr_valid:
  assumes G: "group_law c" and P: "valid_point c P"
  shows "valid_point c (fst (randomize_repr P rng))
         \<and> affine_of (fst (randomize_repr P rng)) = affine_of P"
proof -
  let ?p = "get_p c"
  let ?r = "1 + int (rng_source rng (rng_pos rng)) mod (?p - 1)"
  have pm: "prime_modulus ?p" using G by (simp add: group_law_def)
  have p: "1 < ?p" using group_law_p [OF G] .
  have "0 \<le> int (rng_source rng (rng_pos rng)) mod (?p - 1)" using p by simp
  moreover have "int (rng_source rng (rng_pos rng)) mod (?p - 1) < ?p - 1" using p by simp
  ultimately have "0 < ?r" "?r < ?p" by simp_all
  then have r: "?r mod ?p \<noteq> 0" by simp
  have "fst (randomize_repr P rng) = scale_repr ?r P"
    using valid_pointD(1) [OF P] by (simp add: randomize_repr_def rng_next_def Let_def)
  then show ?thesis using scale_repr_valid [OF pm P r] by simp
qed

section \<open>Lists of results and flat tables\<close>

lemma ebind_Inr [simp]: "ebind (Inr x) f = f x"
  by (simp add: ebind_def)

lemma ebind_Inl [simp]: "ebind (Inl e) f = Inl e"
  by (simp add: ebind_def)

lemma emap_Inr:
  "(\<And>x. x \<in> set xs \<Longrightarrow> f x = Inr (g x)) \<Longrightarrow> emap f xs = Inr (map g xs)"
  by (induction xs) simp_all

lemma take_drop_concat:
  assumes "\<And>x. x \<in> set xs \<Longrightarrow> length (f x) = n" and "i < length xs"
  shows "take n (drop (i * n) (concat (map f xs))) = f (xs ! i)"
  using assms
proof (induction xs arbitrary: i)
  case Nil
  then show ?case by simp
next
  case (Cons x xs)
  have lx: "length (f x) = n" using Cons.prems(1) by simp
  show ?case
  proof (cases i)
    case 0
    then show ?thesis using lx by simp
  next
    case (Suc j)
    have "take n (drop (j * n) (concat (map f xs))) = f (xs ! j)"
      using Cons.IH [of j] Cons.prems Suc by simp
    then show ?thesis using Suc lx by simp
  qed
qed

lemma length_concat_const:
  assumes "\<And>x. x \<in> set xs \<Longrightarrow> length (f x) = n"
  shows "length (concat (map f xs)) = length xs * n"
  using assms by (induction xs) simp_all

lemma take_drop_nth_map:
  "a + n \<le> length T \<Longrightarrow> take n (drop a T) = map (\<lambda>j. T ! (a + j)) [0..<n]"
  by (rule nth_equalityI) simp_all

section \<open>The table of the variable-point engine\<close>

text \<open>A point represents the affine point \<open>A\<close> on the curve \<open>c\<close>.\<close>

lemma var_table_loop_correct:
  assumes G: "group_law c"
  shows "valid_point c point \<Longrightarrow> even i \<Longrightarrow> 2 \<le> i \<Longrightarrow> i \<le> length U \<Longrightarrow> even (length U)
    \<Longrightarrow> (\<forall>j<i. valid_point c (U ! j) \<and> affine_of (U ! j) = affine_mult c j (affine_of point))
    \<Longrightarrow> \<exists>U'. var_table_loop point i U = Inr U' \<and> length U' = length U
          \<and> (\<forall>j<length U. valid_point c (U' ! j)
                \<and> affine_of (U' ! j) = affine_mult c j (affine_of point))"
proof (induction point i U rule: var_table_loop.induct)
  case (1 point i U)
  let ?A = "affine_of point"
  have P: "valid_point c point" using "1.prems"(1) .
  have ev: "even i" and i2: "2 \<le> i" and il: "i \<le> length U" and el: "even (length U)"
    and tab: "\<forall>j<i. valid_point c (U ! j) \<and> affine_of (U ! j) = affine_mult c j (affine_of point)"
    using "1.prems" by simp_all
  have A: "affine_on_curve c ?A" using valid_pointD(3) [OF P] .
  show ?case
  proof (cases "i < length U")
    case False
    then have e: "i = length U" using il by simp
    have "var_table_loop point i U = Inr U"
      using False by (simp add: var_table_loop.simps [of point i U])
    then show ?thesis using tab e by simp
  next
    case True
    let ?h = "U ! (i div 2)"
    let ?d = "double_of ?h"
    let ?U1 = "U[i := ?d]"
    have hi: "i div 2 < i" using i2 by simp
    have vh: "valid_point c ?h" and ah: "affine_of ?h = affine_mult c (i div 2) ?A"
      using tab hi by simp_all
    have "affine_mult c 2 (affine_mult c (i div 2) ?A) = affine_mult c (i div 2 * 2) ?A"
      using affine_mult_mult [OF G A, of "i div 2" 2] by simp
    also have "i div 2 * 2 = i" using ev by simp
    finally have dd: "affine_mult c 2 (affine_mult c (i div 2) ?A) = affine_mult c i ?A" .
    have vd: "valid_point c ?d" and ad: "affine_of ?d = affine_mult c i ?A"
      using mult2_valid [OF G vh] ah dd by (simp_all add: double_of_def)
    have U1i: "?U1 ! i = ?d" using True by simp
    obtain v where pv: "plus_point ?d point = Inr v" and vv: "valid_point c v"
      and av: "affine_of v = affine_add c (affine_of ?d) ?A"
      using plus_point_valid [OF G vd P] by blast
    have av': "affine_of v = affine_mult c (Suc i) ?A" using av ad by simp
    let ?U2 = "?U1[i + 1 := v]"
    have i1: "i + 1 < length U"
    proof -
      have "odd (i + 1)" using ev by simp
      then have "i + 1 \<noteq> length U" using el by metis
      then show ?thesis using True by simp
    qed
    have inv: "\<forall>j<i + 2. valid_point c (?U2 ! j)
                 \<and> affine_of (?U2 ! j) = affine_mult c j ?A"
    proof (intro allI impI)
      fix j assume j: "j < i + 2"
      consider "j < i" | "j = i" | "j = i + 1" using j by linarith
      then show "valid_point c (?U2 ! j) \<and> affine_of (?U2 ! j) = affine_mult c j ?A"
      proof cases
        case 1
        then show ?thesis using tab by simp
      next
        case 2
        then show ?thesis using vd ad True by simp
      next
        case 3
        then show ?thesis using vv av' i1 by simp
      qed
    qed
    have "\<exists>U'. var_table_loop point (i + 2) ?U2 = Inr U' \<and> length U' = length ?U2
          \<and> (\<forall>j<length ?U2. valid_point c (U' ! j)
                \<and> affine_of (U' ! j) = affine_mult c j ?A)"
    proof (rule "1.IH" [OF True refl P _ _ _ _ inv])
      show "even (i + 2)" using ev by simp
      show "2 \<le> i + 2" by simp
      show "i + 2 \<le> length ?U2" using i1 by simp
      show "even (length ?U2)" using el by simp
    qed
    moreover have "var_table_loop point i U = var_table_loop point (i + 2) ?U2"
      using True pv U1i by (simp add: var_table_loop.simps [of point i U] Let_def)
    ultimately show ?thesis by simp
  qed
qed

lemma var_mask_range:
  assumes p: "1 < p"
  shows "0 < (let mask0 = fst (random_bigint rng (bits p - 1) False)
              in if even mask0 then mask0 + 1 else mask0)
         \<and> (let mask0 = fst (random_bigint rng (bits p - 1) False)
              in if even mask0 then mask0 + 1 else mask0) < p"
proof -
  let ?n = "bits p - 1"
  let ?m = "fst (random_bigint rng ?n False)"
  have "\<not> bits p \<le> 1" using bits_le_iff [of p 1] p by simp
  then have n: "0 < ?n" by simp
  have lo: "2 ^ ?n \<le> p" using bits_lower [of p] p by simp
  have m: "?m = int (rng_source rng (rng_pos rng) mod 2 ^ ?n)"
    using n by (simp add: random_bigint_def rng_next_def)
  have m0: "0 \<le> ?m" using m by simp
  have "rng_source rng (rng_pos rng) mod 2 ^ ?n < 2 ^ ?n" by simp
  then have mh: "?m < 2 ^ ?n"
    using m by (metis of_nat_less_iff of_nat_numeral of_nat_power)
  have e2: "even ((2::int) ^ ?n)" using n by simp
  show ?thesis
  proof (cases "even ?m")
    case True
    have "?m + 1 \<noteq> 2 ^ ?n" using True e2 by (metis even_add odd_one)
    then have "?m + 1 < 2 ^ ?n" using mh by simp
    then show ?thesis using True m0 lo by (simp add: Let_def)
  next
    case False
    then have "?m \<noteq> 0" by auto
    then show ?thesis using False m0 mh lo by (simp add: Let_def)
  qed
qed

lemma var_randomize_valid:
  assumes G: "group_law c"
  shows "(\<forall>P\<in>set Us. valid_point c P)
    \<Longrightarrow> length (fst (var_randomize c Us rng)) = length Us
        \<and> (\<forall>j<length Us. valid_point c (fst (var_randomize c Us rng) ! j)
              \<and> affine_of (fst (var_randomize c Us rng) ! j) = affine_of (Us ! j))"
proof (induction Us arbitrary: rng)
  case Nil
  then show ?case by simp
next
  case (Cons Ui Us)
  let ?p = "get_p c"
  have pm: "prime_modulus ?p" using G by (simp add: group_law_def)
  have p: "1 < ?p" using group_law_p [OF G] .
  obtain mask0 rng1 where rb: "random_bigint rng (bits ?p - 1) False = (mask0, rng1)"
    by (cases "random_bigint rng (bits ?p - 1) False")
  let ?mask = "if even mask0 then mask0 + 1 else mask0"
  have f: "fst (random_bigint rng (bits ?p - 1) False) = mask0" using rb by simp
  have mr: "0 < ?mask \<and> ?mask < ?p"
    using var_mask_range [OF p, of rng] by (simp only: f Let_def)
  then have mz: "?mask mod ?p \<noteq> 0" by simp
  have vUi: "valid_point c Ui" using Cons.prems by simp
  have cUi: "m_curve Ui = c" using valid_pointD(1) [OF vUi] .
  obtain Us' rng2 where rec: "var_randomize c Us rng1 = (Us', rng2)"
    by (cases "var_randomize c Us rng1")
  have e: "fst (var_randomize c (Ui # Us) rng) = scale_repr ?mask Ui # Us'"
    using rb rec cUi
    by (simp add: Let_def scale_repr_def mult.commute)
  have ih: "length Us' = length Us
        \<and> (\<forall>j<length Us. valid_point c (Us' ! j) \<and> affine_of (Us' ! j) = affine_of (Us ! j))"
    using Cons.IH [of rng1] Cons.prems rec by simp
  have s: "valid_point c (scale_repr ?mask Ui)
           \<and> affine_of (scale_repr ?mask Ui) = affine_of Ui"
    using scale_repr_valid [OF pm vUi mz] .
  show ?case
  proof (intro conjI allI impI)
    show "length (fst (var_randomize c (Ui # Us) rng)) = length (Ui # Us)"
      using e ih by simp
  next
    fix j assume "j < length (Ui # Us)"
    then show "valid_point c (fst (var_randomize c (Ui # Us) rng) ! j)"
      using e ih s by (cases j) simp_all
  next
    fix j assume "j < length (Ui # Us)"
    then show "affine_of (fst (var_randomize c (Ui # Us) rng) ! j) = affine_of ((Ui # Us) ! j)"
      using e ih s by (cases j) simp_all
  qed
qed

lemma var_U_correct:
  assumes G: "group_law c" and P: "valid_point c point"
  shows "\<exists>U rng'. var_U point rng = Inr (U, rng') \<and> length U = 16
           \<and> (\<forall>j<16. valid_point c (U ! j)
                 \<and> affine_of (U ! j) = affine_mult c j (affine_of point))"
proof -
  let ?A = "affine_of point"
  let ?U0 = "(replicate (2 ^ 4) PointGFp_default)[0 := zero_point point, 1 := point]"
  have cP: "m_curve point = c" using valid_pointD(1) [OF P] .
  have p: "1 < get_p c" using group_law_p [OF G] .
  have init: "\<forall>j<2. valid_point c (?U0 ! j) \<and> affine_of (?U0 ! j) = affine_mult c j ?A"
  proof (intro allI impI)
    fix j :: nat assume "j < 2"
    then consider "j = 0" | "j = 1" by linarith
    then show "valid_point c (?U0 ! j) \<and> affine_of (?U0 ! j) = affine_mult c j ?A"
    proof cases
      case 1
      then show ?thesis using valid_zero_of_curve [OF p] cP by (simp add: zero_point_def)
    next
      case 2
      then show ?thesis using P by simp
    qed
  qed
  obtain U where loop: "var_table_loop point 2 ?U0 = Inr U" and lU: "length U = 16"
    and tab: "\<forall>j<16. valid_point c (U ! j) \<and> affine_of (U ! j) = affine_mult c j ?A"
    using var_table_loop_correct [OF G P, of 2 ?U0] init by auto
  show ?thesis
  proof (cases "is_seeded rng")
    case False
    then have "var_U point rng = Inr (U, rng)"
      using loop by (simp add: var_U_def)
    then show ?thesis using lU tab by blast
  next
    case True
    obtain Us rng' where r: "var_randomize (m_curve (U ! 0)) (tl U) rng = (Us, rng')"
      by (cases "var_randomize (m_curve (U ! 0)) (tl U) rng")
    have c0: "m_curve (U ! 0) = c" using tab valid_pointD(1) by simp
    have tlv: "\<forall>Q\<in>set (tl U). valid_point c Q"
    proof
      fix Q assume "Q \<in> set (tl U)"
      then have "Q \<in> set U" using lU by (metis list.set_sel(2) length_0_conv zero_neq_numeral)
      then obtain j where "j < length U" "U ! j = Q" by (metis in_set_conv_nth)
      then show "valid_point c Q" using tab lU by auto
    qed
    have rv: "length Us = 15
        \<and> (\<forall>j<15. valid_point c (Us ! j) \<and> affine_of (Us ! j) = affine_of (tl U ! j))"
      using var_randomize_valid [OF G tlv, of rng] r c0 lU by simp
    have e: "var_U point rng = Inr (hd U # Us, rng')"
      using True loop r by (simp add: var_U_def)
    have "\<forall>j<16. valid_point c ((hd U # Us) ! j)
            \<and> affine_of ((hd U # Us) ! j) = affine_mult c j ?A"
    proof (intro allI impI)
      fix j :: nat assume j: "j < 16"
      show "valid_point c ((hd U # Us) ! j)
            \<and> affine_of ((hd U # Us) ! j) = affine_mult c j ?A"
      proof (cases j)
        case 0
        have "hd U = U ! 0" using lU by (metis hd_conv_nth length_0_conv zero_neq_numeral)
        then show ?thesis using 0 tab by simp
      next
        case (Suc j')
        have "tl U ! j' = U ! Suc j'" using lU Suc j by (simp add: nth_tl)
        then show ?thesis using Suc j rv tab by simp
      qed
    qed
    then show ?thesis using e rv by auto
  qed
qed

lemma encode_xyz_ok:
  "(\<forall>P\<in>set U. reduced P \<and> m_curve P = c)
    \<Longrightarrow> encode_xyz (sig_words (get_p c)) U
        = Inr (concat (map (\<lambda>P. bigint_words (nat \<bar>m_coord_x P\<bar>) (sig_words (get_p c))
                              @ bigint_words (nat \<bar>m_coord_y P\<bar>) (sig_words (get_p c))
                              @ bigint_words (nat \<bar>m_coord_z P\<bar>) (sig_words (get_p c))) U))"
proof (induction U)
  case Nil
  then show ?case by simp
next
  case (Cons P U)
  have r: "reduced P" and c: "m_curve P = c" using Cons.prems by simp_all
  have "encode_words (m_coord_x P) (sig_words (get_p c))
          = Inr (bigint_words (nat \<bar>m_coord_x P\<bar>) (sig_words (get_p c)))"
    and "encode_words (m_coord_y P) (sig_words (get_p c))
          = Inr (bigint_words (nat \<bar>m_coord_y P\<bar>) (sig_words (get_p c)))"
    and "encode_words (m_coord_z P) (sig_words (get_p c))
          = Inr (bigint_words (nat \<bar>m_coord_z P\<bar>) (sig_words (get_p c)))"
    using r c by (simp_all only: reduced_def encode_words_ok)
  then show ?case using Cons by simp
qed

lemma var_entry_eq:
  assumes n: "var_m_p_words E = n"
    and s: "take (3 * n) (drop (i * (3 * n)) (m_T E)) = xw @ yw @ zw"
    and l: "length xw = n" "length yw = n" "length zw = n"
  shows "var_entry E i = \<lparr>m_curve = var_m_curve E, m_coord_x = word_value xw,
                           m_coord_y = word_value yw, m_coord_z = word_value zw\<rparr>"
  unfolding var_entry_def Let_def n s using l by simp

lemma Var_Point_Precompute_correct:
  assumes G: "group_law c" and P: "valid_point c point"
  shows "\<exists>E rng'. Var_Point_Precompute point rng = Inr (E, rng')
           \<and> var_m_curve E = c \<and> var_m_p_words E = sig_words (get_p c)
           \<and> m_window_bits E = 4
           \<and> length (m_T E) = 16 * (3 * var_m_p_words E)
           \<and> (\<forall>i<16. valid_point c (var_entry E i)
                 \<and> affine_of (var_entry E i) = affine_mult c i (affine_of point))"
proof -
  let ?n = "sig_words (get_p c)"
  let ?enc = "\<lambda>P. bigint_words (nat \<bar>m_coord_x P\<bar>) ?n @ bigint_words (nat \<bar>m_coord_y P\<bar>) ?n
                     @ bigint_words (nat \<bar>m_coord_z P\<bar>) ?n"
  obtain U rng' where u: "var_U point rng = Inr (U, rng')" and lU: "length U = 16"
    and tab: "\<forall>j<16. valid_point c (U ! j)
                 \<and> affine_of (U ! j) = affine_mult c j (affine_of point)"
    using var_U_correct [OF G P, of rng] by blast
  have cP: "m_curve point = c" using valid_pointD(1) [OF P] .
  have all: "\<forall>Q\<in>set U. reduced Q \<and> m_curve Q = c"
  proof
    fix Q assume "Q \<in> set U"
    then obtain j where "j < length U" "U ! j = Q" by (metis in_set_conv_nth)
    then have "valid_point c Q" using tab lU by auto
    then show "reduced Q \<and> m_curve Q = c" by (simp add: valid_point_def)
  qed
  let ?T = "concat (map ?enc U)"
  let ?E = "\<lparr>var_m_curve = c, var_m_p_words = ?n, m_window_bits = 4, m_T = ?T\<rparr>"
  have enc: "encode_xyz ?n U = Inr ?T" using encode_xyz_ok [OF all] .
  have ctor: "Var_Point_Precompute point rng = Inr (?E, rng')"
    using u enc cP by (simp add: Var_Point_Precompute_def Let_def)
  have len: "\<And>Q. Q \<in> set U \<Longrightarrow> length (?enc Q) = 3 * ?n" by simp
  have lT: "length ?T = 16 * (3 * ?n)"
    using length_concat_const [of U ?enc "3 * ?n"] lU by simp
  have ent: "var_entry ?E i = U ! i" if i: "i < 16" for i
  proof -
    have s: "take (3 * ?n) (drop (i * (3 * ?n)) ?T) = ?enc (U ! i)"
      using take_drop_concat [of U ?enc "3 * ?n" i] i lU by simp
    have v: "valid_point c (U ! i)" using tab i by simp
    have "var_entry ?E i =
            \<lparr>m_curve = c,
             m_coord_x = word_value (bigint_words (nat \<bar>m_coord_x (U ! i)\<bar>) ?n),
             m_coord_y = word_value (bigint_words (nat \<bar>m_coord_y (U ! i)\<bar>) ?n),
             m_coord_z = word_value (bigint_words (nat \<bar>m_coord_z (U ! i)\<bar>) ?n)\<rparr>"
      using var_entry_eq [of ?E ?n i, OF _ _ length_bigint_words length_bigint_words
          length_bigint_words] s
      by simp
    then show ?thesis using point_words_decode [OF v] by simp
  qed
  have "\<forall>i<16. valid_point c (var_entry ?E i)
          \<and> affine_of (var_entry ?E i) = affine_mult c i (affine_of point)"
    using ent tab by simp
  with ctor lT show ?thesis by auto
qed

section \<open>The table of the variable-point engine: the claim\<close>

text \<open>
  C9: the constructor of the variable-point engine builds a table of \<open>2\<^sup>4 = 16\<close> entries,
  stored as Jacobian triples of \<open>p_words\<close> words per coordinate in the flat word table;
  entry \<open>i\<close> represents the affine point \<open>i * P\<close> (entry 0 the identity), whether or not
  the RNG is seeded: re-homogenizing a representation by a nonzero \<open>r\<close> leaves the
  represented affine point as it was.
\<close>

theorem var_table_spec:
  assumes "group_law c" and "valid_point c P"
  shows "\<exists>E rng'. Var_Point_Precompute P rng = Inr (E, rng')
           \<and> length (m_T E) = 2 ^ 4 * (3 * var_m_p_words E)
           \<and> (\<forall>i<2 ^ 4. affine_of (var_entry E i) = affine_mult c i (affine_of P))
           \<and> is_zero (var_entry E 0)
           \<and> (\<forall>r Q. valid_point c Q \<and> r mod get_p c \<noteq> 0
                 \<longrightarrow> affine_of (scale_repr r Q) = affine_of Q)"
proof -
  obtain E rng' where e: "Var_Point_Precompute P rng = Inr (E, rng')"
    and l: "length (m_T E) = 16 * (3 * var_m_p_words E)"
    and t: "\<forall>i<16. valid_point c (var_entry E i)
                 \<and> affine_of (var_entry E i) = affine_mult c i (affine_of P)"
    using Var_Point_Precompute_correct [OF assms, of rng] by blast
  have "affine_of (var_entry E 0) = None" using t by simp
  then have z: "is_zero (var_entry E 0)" by (simp add: affine_of_None_iff)
  have pm: "prime_modulus (get_p c)" using assms(1) by (simp add: group_law_def)
  have s: "\<forall>r Q. valid_point c Q \<and> r mod get_p c \<noteq> 0
                 \<longrightarrow> affine_of (scale_repr r Q) = affine_of Q"
    using scale_repr_valid [OF pm] by blast
  from e l t z s show ?thesis by auto
qed

section \<open>Scalar multiplication by the variable-point engine\<close>

lemma mask_and_select:
  "(e :: word) OR if_set_return (Mask_is_equal w i) r = (if w = i then e OR r else e)"
  by (simp add: if_set_return_def Mask_is_equal_def)

lemma var_select_step_eq:
  assumes "(i + 1) * es \<le> length T" and "length e = es"
  shows "var_select_step T es w i e
           = Inr (if w = i then map (\<lambda>j. (e ! j) OR (T ! (i * es + j))) [0..<es] else e)"
proof -
  have r: "\<And>j. j \<in> set [0..<es] \<Longrightarrow>
          ebind (read_word T (i * es + j)) (\<lambda>r. Inr ((e ! j) OR if_set_return (Mask_is_equal w i) r))
            = Inr (if w = i then (e ! j) OR (T ! (i * es + j)) else e ! j)"
  proof -
    fix j assume "j \<in> set [0..<es]"
    then have "i * es + j < length T" using assms(1) by simp
    then show "ebind (read_word T (i * es + j))
                 (\<lambda>r. Inr ((e ! j) OR if_set_return (Mask_is_equal w i) r))
            = Inr (if w = i then (e ! j) OR (T ! (i * es + j)) else e ! j)"
      by (simp add: read_word_def mask_and_select)
  qed
  have "var_select_step T es w i e
          = Inr (map (\<lambda>j. if w = i then (e ! j) OR (T ! (i * es + j)) else e ! j) [0..<es])"
    unfolding var_select_step_def by (rule emap_Inr) (rule r)
  moreover have "map (\<lambda>j. e ! j) [0..<es] = e"
    using assms(2) map_nth [of e] by simp
  ultimately show ?thesis by auto
qed

lemma var_select_loop_eq:
  "distinct idx \<Longrightarrow> (\<forall>i\<in>set idx. (i + 1) * es \<le> length T) \<Longrightarrow> length e = es
    \<Longrightarrow> (w \<in> set idx \<longrightarrow> e = replicate es 0)
    \<Longrightarrow> var_select_loop T es w idx e
        = Inr (if w \<in> set idx then take es (drop (w * es) T) else e)"
proof (induction idx arbitrary: e)
  case Nil
  then show ?case by simp
next
  case (Cons i idx)
  have b: "(i + 1) * es \<le> length T" using Cons.prems(2) by simp
  have st: "var_select_step T es w i e
        = Inr (if w = i then map (\<lambda>j. (e ! j) OR (T ! (i * es + j))) [0..<es] else e)"
    using var_select_step_eq [OF b Cons.prems(3)] .
  show ?case
  proof (cases "w = i")
    case True
    have ez: "e = replicate es 0" using Cons.prems(4) True by simp
    have "map (\<lambda>j. (e ! j) OR (T ! (i * es + j))) [0..<es] = map (\<lambda>j. T ! (i * es + j)) [0..<es]"
      using ez by simp
    also have "\<dots> = take es (drop (i * es) T)"
      using take_drop_nth_map [of "i * es" es T] b by simp
    finally have m: "map (\<lambda>j. (e ! j) OR (T ! (i * es + j))) [0..<es] = take es (drop (i * es) T)" .
    have le: "length (take es (drop (i * es) T)) = es" using b by simp
    have "w \<notin> set idx" using Cons.prems(1) True by simp
    then have "var_select_loop T es w idx (take es (drop (i * es) T))
                 = Inr (take es (drop (i * es) T))"
      using Cons.IH [of "take es (drop (i * es) T)"] Cons.prems(1,2) le by simp
    then show ?thesis using st True m by simp
  next
    case False
    have "var_select_loop T es w idx e
            = Inr (if w \<in> set idx then take es (drop (w * es) T) else e)"
      using Cons.IH [of e] Cons.prems False by simp
    then show ?thesis using st False by simp
  qed
qed

end
